theory Spec2Isabelle
  imports Main "HOL-Library.Product_Lexorder" "HOL-Library.Multiset"
begin

text \<open>
  The event stream and pagination store of \<^verbatim>\<open>synapse/storage/stream.py\<close> and the
  dependency accessors of \<^verbatim>\<open>synapse/server.py\<close>, as functions of HOL. The
  \<^verbatim>\<open>events\<close> table is a list of rows and a query is the filtering, sorting and
  cutting of that list; an operation of the store returns its answer, or the error it
  raises, together with the interactions it had with the database pool, the change cache
  and the event store. The definitions come first, the scenarios of the specification
  after them, and the properties last.
\<close>

section \<open>Decimal rendering of integers\<close>

text \<open>
  The source renders integers with Python's \<^verbatim>\<open>"%d"\<close>: a decimal numeral without
  leading zeros, with a leading minus sign for a negative value.
\<close>

definition decimal_digits :: string where
  "decimal_digits = ''0123456789''"

definition digit_char :: "nat \<Rightarrow> char" where
  "digit_char d = decimal_digits ! d"

fun digits :: "nat \<Rightarrow> string" where
  "digits n = (if n < 10 then [digit_char n] else digits (n div 10) @ [digit_char (n mod 10)])"

declare digits.simps [simp del]

definition show_int :: "int \<Rightarrow> string" where
  "show_int i = (if i < 0 then CHR ''-'' # digits (nat (- i)) else digits (nat i))"

fun position :: "'a \<Rightarrow> 'a list \<Rightarrow> nat option" where
  "position x [] = None"
| "position x (y # ys) = (if x = y then Some 0 else map_option Suc (position x ys))"

definition digit_val :: "char \<Rightarrow> nat option" where
  "digit_val c = position c decimal_digits"

definition is_digit :: "char \<Rightarrow> bool" where
  "is_digit c = (digit_val c \<noteq> None)"

text \<open>Reading a non-empty run of decimal digits, most significant digit first.\<close>

fun read_digits :: "nat \<Rightarrow> string \<Rightarrow> nat option" where
  "read_digits acc [] = Some acc"
| "read_digits acc (c # cs) =
     (case digit_val c of None \<Rightarrow> None | Some d \<Rightarrow> read_digits (10 * acc + d) cs)"

definition read_nat :: "string \<Rightarrow> nat option" where
  "read_nat s = (if s = [] then None else read_digits 0 s)"

definition read_int :: "string \<Rightarrow> int option" where
  "read_int s =
     (case s of
        [] \<Rightarrow> None
      | c # cs \<Rightarrow>
          if c = CHR ''-'' then map_option (\<lambda>n. - int n) (read_nat cs)
          else map_option int (read_nat s))"

section \<open>RoomStreamToken\<close>

datatype error =
    InvalidToken string
  | EventNotFound

text \<open>
  Modelled from the spec: the class \<^verbatim>\<open>RoomStreamToken\<close> of \<^verbatim>\<open>synapse.types\<close> is
  imported by \<^verbatim>\<open>storage/stream.py\<close> and defined outside the two modules embedded here.
  The specification gives two variants, a stream token \<^verbatim>\<open>(topological = None, stream = s)\<close>
  written \<^verbatim>\<open>"s{s}"\<close> and a topological token \<^verbatim>\<open>(topological = t, stream = s)\<close> written
  \<^verbatim>\<open>"t{t}-{s}"\<close>, both with signed decimal integers; \<^verbatim>\<open>parse\<close> accepts either form
  and fails with \<^verbatim>\<open>InvalidToken\<close> otherwise; \<^verbatim>\<open>parse_stream\<close> accepts the same inputs
  (its callers take the \<^verbatim>\<open>stream\<close> component).
\<close>

record RoomStreamToken =
  topological :: "int option"
  stream :: int

text \<open>
  Modelled from the spec: \<^verbatim>\<open>str(token)\<close>, the serialisation \<^verbatim>\<open>"t{t}-{s}"\<close> of a
  topological token and \<^verbatim>\<open>"s{s}"\<close> of a stream token.
\<close>

definition str_token :: "RoomStreamToken \<Rightarrow> string" where
  "str_token t =
     (case topological t of
        Some topo \<Rightarrow> ''t'' @ show_int topo @ ''-'' @ show_int (stream t)
      | None \<Rightarrow> ''s'' @ show_int (stream t))"

text \<open>
  Modelled from the spec: the two parts of \<^verbatim>\<open>"t{t}-{s}"\<close>. The text after the
  leading \<^verbatim>\<open>t\<close> is cut after the first signed run of digits; a minus sign must
  follow, and the remainder is the stream part.
\<close>

definition split_topological :: "string \<Rightarrow> (string \<times> string) option" where
  "split_topological s =
     (let sgn = (if s \<noteq> [] \<and> hd s = CHR ''-'' then ''-'' else '''');
          body = drop (length sgn) s;
          ds = takeWhile is_digit body;
          rest = dropWhile is_digit body
      in case rest of
           [] \<Rightarrow> None
         | c # cs \<Rightarrow> if c = CHR ''-'' then Some (sgn @ ds, cs) else None)"

text \<open>
  Modelled from the spec: \<^verbatim>\<open>RoomStreamToken.parse\<close> accepts \<^verbatim>\<open>"s{n}"\<close> or
  \<^verbatim>\<open>"t{a}-{b}"\<close> and fails with \<^verbatim>\<open>InvalidToken\<close> otherwise.
\<close>

definition parse :: "string \<Rightarrow> error + RoomStreamToken" where
  "parse string =
     (case string of
        [] \<Rightarrow> Inl (InvalidToken string)
      | c # cs \<Rightarrow>
          if c = CHR ''s'' then
            (case read_int cs of
               None \<Rightarrow> Inl (InvalidToken string)
             | Some s \<Rightarrow> Inr \<lparr>topological = None, stream = s\<rparr>)
          else if c = CHR ''t'' then
            (case split_topological cs of
               None \<Rightarrow> Inl (InvalidToken string)
             | Some (a, b) \<Rightarrow>
                 (case (read_int a, read_int b) of
                    (Some topo, Some s) \<Rightarrow> Inr \<lparr>topological = Some topo, stream = s\<rparr>
                  | _ \<Rightarrow> Inl (InvalidToken string)))
          else Inl (InvalidToken string))"

text \<open>
  Modelled from the spec: \<^verbatim>\<open>RoomStreamToken.parse_stream_token\<close> accepts what
  \<^verbatim>\<open>parse\<close> accepts; for \<^verbatim>\<open>"t{a}-{b}"\<close> it yields the token whose stream part is
  \<^verbatim>\<open>b\<close> and whose topological part is \<^verbatim>\<open>a\<close>.
\<close>

definition parse_stream_token :: "string \<Rightarrow> error + RoomStreamToken" where
  "parse_stream_token string = parse string"

section \<open>Bound expressions\<close>

text \<open>
  \<^verbatim>\<open>lower_bound\<close> and \<^verbatim>\<open>upper_bound\<close> build a fragment of SQL text by string
  formatting. The fragment is kept here as a syntax tree over the two ordering columns;
  \<open>render\<close> gives the text the Python functions return and \<open>holds\<close> gives its
  value on a row, following SQL's reading of the operators on integer columns.
\<close>

datatype column = stream_ordering_col | topological_ordering_col

datatype cmp = LT | GT | GE | EQ

datatype sql_expr =
    Cmp int cmp column
  | Or sql_expr sql_expr
  | And sql_expr sql_expr
  | Paren sql_expr

definition column_name :: "column \<Rightarrow> string" where
  "column_name c =
     (case c of stream_ordering_col \<Rightarrow> ''stream_ordering''
              | topological_ordering_col \<Rightarrow> ''topological_ordering'')"

definition cmp_name :: "cmp \<Rightarrow> string" where
  "cmp_name c = (case c of LT \<Rightarrow> ''<'' | GT \<Rightarrow> ''>'' | GE \<Rightarrow> ''>='' | EQ \<Rightarrow> ''='')"

fun render :: "sql_expr \<Rightarrow> string" where
  "render (Cmp n c col) = show_int n @ '' '' @ cmp_name c @ '' '' @ column_name col"
| "render (Or a b) = render a @ '' OR '' @ render b"
| "render (And a b) = render a @ '' AND '' @ render b"
| "render (Paren a) = ''('' @ render a @ '')''"

definition cmp_holds :: "cmp \<Rightarrow> int \<Rightarrow> int \<Rightarrow> bool" where
  "cmp_holds c a b = (case c of LT \<Rightarrow> a < b | GT \<Rightarrow> a > b | GE \<Rightarrow> a \<ge> b | EQ \<Rightarrow> a = b)"

definition lower_bound :: "RoomStreamToken \<Rightarrow> sql_expr" where
  "lower_bound token =
     (case topological token of
        None \<Rightarrow> Paren (Cmp (stream token) LT stream_ordering_col)
      | Some topo \<Rightarrow>
          Paren (Or (Cmp topo LT topological_ordering_col)
                    (Paren (And (Cmp topo EQ topological_ordering_col)
                                (Cmp (stream token) LT stream_ordering_col)))))"

definition upper_bound :: "RoomStreamToken \<Rightarrow> sql_expr" where
  "upper_bound token =
     (case topological token of
        None \<Rightarrow> Paren (Cmp (stream token) GE stream_ordering_col)
      | Some topo \<Rightarrow>
          Paren (Or (Cmp topo GT topological_ordering_col)
                    (Paren (And (Cmp topo EQ topological_ordering_col)
                                (Cmp (stream token) GE stream_ordering_col)))))"

section \<open>The events table\<close>

text \<open>
  A row of the \<^verbatim>\<open>events\<close> table with the columns the queries of
  \<^verbatim>\<open>storage/stream.py\<close> read; \<open>state_key\<close> is the column that the left join with
  \<^verbatim>\<open>state_events\<close> adds (\<open>None\<close> for an event that is not a state event).
\<close>

record row =
  event_id :: string
  room_id :: string
  type :: string
  state_key :: "string option"
  outlier :: bool
  stream_ordering :: int
  topological_ordering :: int
  depth :: int

definition column_value :: "column \<Rightarrow> row \<Rightarrow> int" where
  "column_value c r =
     (case c of stream_ordering_col \<Rightarrow> stream_ordering r
              | topological_ordering_col \<Rightarrow> topological_ordering r)"

fun holds :: "sql_expr \<Rightarrow> row \<Rightarrow> bool" where
  "holds (Cmp n c col) r = cmp_holds c n (column_value col r)"
| "holds (Or a b) r = (holds a r \<or> holds b r)"
| "holds (And a b) r = (holds a r \<and> holds b r)"
| "holds (Paren a) r = holds a r"

text \<open>The composite order of the specification: topological ordering, then stream ordering.\<close>

definition composite :: "row \<Rightarrow> int \<times> int" where
  "composite r = (topological_ordering r, stream_ordering r)"

section \<open>Queries\<close>

text \<open>
  A query is read as SQL reads it: the rows of the table that satisfy the
  \<^verbatim>\<open>WHERE\<close> clause, sorted by the \<^verbatim>\<open>ORDER BY\<close> key, cut by \<^verbatim>\<open>LIMIT\<close>.
  The keyword \<^verbatim>\<open>ASC\<close> or \<^verbatim>\<open>DESC\<close> that the source pastes into the query text is a
  value of \<open>sql_order\<close>. Rows with equal keys keep their table order under \<open>ASC\<close>
  and the reverse of it under \<open>DESC\<close> (SQL leaves their order open). A negative
  \<^verbatim>\<open>LIMIT\<close> is read as SQLite reads it: no limit.
\<close>

datatype sql_order = ASC | DESC

definition order_by :: "sql_order \<Rightarrow> (row \<Rightarrow> 'k::linorder) \<Rightarrow> row list \<Rightarrow> row list" where
  "order_by ord key rows =
     (case ord of ASC \<Rightarrow> sort_key key rows | DESC \<Rightarrow> rev (sort_key key rows))"

definition sql_limit :: "int \<Rightarrow> row list \<Rightarrow> row list" where
  "sql_limit n rows = (if n < 0 then rows else take (nat n) rows)"

section \<open>Events and their annotations\<close>

record internal_metadata =
  before :: "string option"
  after :: "string option"
  order :: "(int \<times> int) option"

text \<open>
  A materialised event: the row it was loaded from (its \<^verbatim>\<open>event_id\<close>, \<^verbatim>\<open>depth\<close>
  and the other columns) and the mutable \<^verbatim>\<open>internal_metadata\<close>.
\<close>

record event =
  ev_row :: row
  internal :: internal_metadata

definition new_event :: "row \<Rightarrow> event" where
  "new_event r = \<lparr>ev_row = r, internal = \<lparr>before = None, after = None, order = None\<rparr>\<rparr>"

text \<open>
  Modelled from the spec: \<^verbatim>\<open>_get_events\<close> belongs to the event store, which is
  defined outside the two modules embedded here. The specification gives it as the operation
  \<^verbatim>\<open>fetch(event_ids, include_prev_content)\<close> that loads the events of the given ids, in
  the order of the ids; an id is looked up by the key \<^verbatim>\<open>event_id\<close> of the table.
\<close>

definition get_events :: "row list \<Rightarrow> string list \<Rightarrow> event list" where
  "get_events tbl event_ids =
     List.map_filter (\<lambda>i. map_option new_event (find (\<lambda>r. event_id r = i) tbl)) event_ids"

definition annotate :: "event \<Rightarrow> row \<Rightarrow> bool \<Rightarrow> event" where
  "annotate ev r topo_order =
     (let strm = stream_ordering r;
          topo = (if topo_order then Some (depth (ev_row ev)) else None)
      in ev\<lparr>internal :=
          \<lparr>before = Some (str_token \<lparr>topological = topo, stream = strm - 1\<rparr>),
           after = Some (str_token \<lparr>topological = topo, stream = strm\<rparr>),
           order = Some ((case topo of None \<Rightarrow> 0 | Some t \<Rightarrow> if t \<noteq> 0 then t else 0), strm)\<rparr>\<rparr>)"

text \<open>
  \<^verbatim>\<open>for event, row in zip(events, rows)\<close>: the pairs are formed by position and the
  longer list's tail is left as it is.
\<close>

fun set_before_and_after :: "event list \<Rightarrow> row list \<Rightarrow> bool \<Rightarrow> event list" where
  "set_before_and_after [] rows topo_order = []"
| "set_before_and_after (ev # evs) [] topo_order = ev # evs"
| "set_before_and_after (ev # evs) (r # rs) topo_order =
     annotate ev r topo_order # set_before_and_after evs rs topo_order"

section \<open>The stream store\<close>

text \<open>
  The store reads the \<^verbatim>\<open>events\<close> table, the \<^verbatim>\<open>room_memberships\<close> table (of
  which the queries read the columns \<^verbatim>\<open>event_id\<close> and \<^verbatim>\<open>user_id\<close>), the change
  cache of the rooms and the change cache of the memberships; a cache is taken as its
  answer to \<^verbatim>\<open>has_entity_changed(key, stream_id)\<close>. Every operation returns, next to
  its result, the list of the interactions it had with the database pool, the caches and
  the event store, in the order they happened.
\<close>

record membership =
  m_event_id :: string
  user_id :: string

record store =
  events :: "row list"
  events_stream_cache :: "string \<Rightarrow> int \<Rightarrow> bool"
  room_memberships :: "membership list"
  membership_stream_cache :: "string \<Rightarrow> int \<Rightarrow> bool"

datatype effect =
    RunInteraction string
  | HasEntityChanged string int
  | GetEvents "string list"
  | GetEntitiesChanged "string list" int
  | HasMembershipChanged string int

definition MAX_STREAM_SIZE :: int where
  "MAX_STREAM_SIZE = 1000"

text \<open>
  The application service, as far as \<^verbatim>\<open>get_appservice_room_stream\<close> uses it: the
  room ids that \<^verbatim>\<open>_get_app_service_rooms_txn\<close> returns for it and its predicate
  \<^verbatim>\<open>is_interested_in_user\<close> on the state key of a row.
\<close>

record app_service =
  rooms_for_as :: "string list"
  is_interested_in_user :: "string option \<Rightarrow> bool"

text \<open>
  The filter \<^verbatim>\<open>app_service_interested(row)\<close>; \<^verbatim>\<open>EventTypes.Member\<close> is the event
  type \<^verbatim>\<open>"m.room.member"\<close>, as the specification gives it.
\<close>

definition app_service_interested :: "app_service \<Rightarrow> row \<Rightarrow> bool" where
  "app_service_interested service r =
     (if room_id r \<in> set (rooms_for_as service) then True
      else if type r = ''m.room.member'' then
        (if is_interested_in_user service (state_key r) then True else False)
      else False)"

text \<open>
  The next token of the application service stream: \<^verbatim>\<open>"s%d" % max(...)\<close> over the
  rows when there are any, \<^verbatim>\<open>to_key\<close> otherwise.
\<close>

definition max_stream_key :: "row list \<Rightarrow> string \<Rightarrow> string" where
  "max_stream_key rows to_key =
     (case rows of
        [] \<Rightarrow> to_key
      | r # rs \<Rightarrow> ''s'' @ show_int (fold max (map stream_ordering rs) (stream_ordering r)))"

text \<open>The limit that \<^verbatim>\<open>get_appservice_room_stream\<close> puts into its query.\<close>

definition appservice_limit :: "int \<Rightarrow> int" where
  "appservice_limit limit = (if limit \<noteq> 0 then max limit MAX_STREAM_SIZE else MAX_STREAM_SIZE)"

text \<open>The rows that the transaction function of \<^verbatim>\<open>get_appservice_room_stream\<close> selects.\<close>

definition appservice_rows :: "row list \<Rightarrow> int \<Rightarrow> int \<Rightarrow> int \<Rightarrow> row list" where
  "appservice_rows tbl from_id to_id limit =
     sql_limit limit (order_by ASC stream_ordering
       (filter (\<lambda>r. stream_ordering r > from_id \<and> stream_ordering r \<le> to_id) tbl))"

definition get_appservice_room_stream ::
  "store \<Rightarrow> app_service \<Rightarrow> string \<Rightarrow> string \<Rightarrow> int
     \<Rightarrow> (error + event list \<times> string) \<times> effect list" where
  "get_appservice_room_stream st service from_key to_key limit =
     (let limit = appservice_limit limit
      in case parse_stream_token from_key of
           Inl e \<Rightarrow> (Inl e, [])
         | Inr from_id \<Rightarrow>
        (case parse_stream_token to_key of
           Inl e \<Rightarrow> (Inl e, [])
         | Inr to_id \<Rightarrow>
             if from_key = to_key then (Inr ([], to_key), [])
             else
               let rows = appservice_rows (events st) (stream from_id) (stream to_id) limit;
                   ret = get_events (events st)
                           (map event_id (filter (app_service_interested service) rows));
                   ret = set_before_and_after ret rows True;
                   key = max_stream_key rows to_key
               in (Inr (ret, key), [RunInteraction ''get_appservice_room_stream''])))"

text \<open>
  The next token of the room stream: \<^verbatim>\<open>"s%d" % min(...)\<close> over the rows when there
  are any, \<^verbatim>\<open>from_key\<close> (which may be \<^verbatim>\<open>None\<close>) otherwise.
\<close>

definition min_stream_key :: "row list \<Rightarrow> string option \<Rightarrow> string option" where
  "min_stream_key rows from_key =
     (case rows of
        [] \<Rightarrow> from_key
      | r # rs \<Rightarrow> Some (''s'' @ show_int (fold min (map stream_ordering rs) (stream_ordering r))))"

text \<open>The transaction function \<^verbatim>\<open>f\<close> of \<^verbatim>\<open>get_room_events_stream_for_room\<close>.\<close>

definition room_stream_rows ::
  "row list \<Rightarrow> string \<Rightarrow> int option \<Rightarrow> int \<Rightarrow> int \<Rightarrow> sql_order \<Rightarrow> row list" where
  "room_stream_rows tbl room from_id to_id limit ord =
     (case from_id of
        Some f \<Rightarrow>
          sql_limit limit (order_by ord stream_ordering
            (filter (\<lambda>r. room_id r = room \<and> \<not> outlier r
                        \<and> stream_ordering r > f \<and> stream_ordering r \<le> to_id) tbl))
      | None \<Rightarrow>
          sql_limit limit (order_by ord composite
            (filter (\<lambda>r. room_id r = room \<and> \<not> outlier r \<and> stream_ordering r \<le> to_id) tbl)))"

definition get_room_events_stream_for_room ::
  "store \<Rightarrow> string \<Rightarrow> string option \<Rightarrow> string \<Rightarrow> int \<Rightarrow> sql_order
     \<Rightarrow> (error + event list \<times> string option) \<times> effect list" where
  "get_room_events_stream_for_room st room from_key to_key limit ord =
     (case (case from_key of
              None \<Rightarrow> Inr None
            | Some k \<Rightarrow> (case parse_stream_token k of
                          Inl e \<Rightarrow> Inl e | Inr t \<Rightarrow> Inr (Some (stream t)))) of
        Inl e \<Rightarrow> (Inl e, [])
      | Inr from_id \<Rightarrow>
     (case parse_stream_token to_key of
        Inl e \<Rightarrow> (Inl e, [])
      | Inr to_tok \<Rightarrow>
          if from_key = Some to_key then (Inr ([], from_key), [])
          else
            let asked = (case from_id of
                           None \<Rightarrow> []
                         | Some f \<Rightarrow> if f \<noteq> 0 then [HasEntityChanged room f] else []);
                has_changed = (case from_id of
                           None \<Rightarrow> True
                         | Some f \<Rightarrow> if f \<noteq> 0 then events_stream_cache st room f else True)
            in if \<not> has_changed then (Inr ([], from_key), asked)
               else
                 let rows = room_stream_rows (events st) room from_id (stream to_tok) limit ord;
                     ret = get_events (events st) (map event_id rows);
                     ret = set_before_and_after ret rows (from_id = None);
                     ret = (if ord = DESC then rev ret else ret);
                     key = min_stream_key rows from_key
                 in (Inr (ret, key),
                     asked @ [RunInteraction ''get_room_events_stream_for_room'',
                              GetEvents (map event_id rows)])))"

text \<open>
  Modelled from the spec: \<^verbatim>\<open>get_entities_changed(keys, since_stream_id)\<close> of the change
  cache, which is defined outside the two modules embedded here. The specification gives
  it as the set of those keys for which the cache reports a change or has no
  information, that is the keys for which \<^verbatim>\<open>has_entity_changed\<close> answers true; the set
  is kept as a list without repetitions.
\<close>

definition get_entities_changed ::
  "(string \<Rightarrow> int \<Rightarrow> bool) \<Rightarrow> string list \<Rightarrow> int \<Rightarrow> string list" where
  "get_entities_changed cache keys since = filter (\<lambda>k. cache k since) (remdups keys)"

text \<open>
  \<^verbatim>\<open>room_ids[i:i + 20] for i in xrange(0, len(room_ids), 20)\<close>: the list cut into
  pieces of twenty.
\<close>

fun chunks_of_20 :: "'a list \<Rightarrow> 'a list list" where
  "chunks_of_20 [] = []"
| "chunks_of_20 (x # xs) = take 20 (x # xs) # chunks_of_20 (drop 20 (x # xs))"

text \<open>
  \<^verbatim>\<open>defer.gatherResults\<close> over the calls of one piece: the list of their results, or
  the first error among them; the calls are taken one after the other.
\<close>

definition gather_results ::
  "((error + 'a) \<times> effect list) list \<Rightarrow> (error + 'a list) \<times> effect list" where
  "gather_results rs =
     (case List.map_filter (\<lambda>r. case fst r of Inl e \<Rightarrow> Some e | Inr x \<Rightarrow> None) rs of
        e # es \<Rightarrow> (Inl e, concat (map snd rs))
      | [] \<Rightarrow> (Inr (List.map_filter (\<lambda>r. case fst r of Inl e \<Rightarrow> None | Inr x \<Rightarrow> Some x) rs),
               concat (map snd rs)))"

text \<open>
  The loop of \<^verbatim>\<open>get_room_events_stream_for_rooms\<close> over the pieces;
  \<^verbatim>\<open>results.update(dict(zip(rm_ids, res)))\<close> adds the results of a piece, whose room
  ids are distinct.
\<close>

fun stream_for_rooms_loop ::
  "store \<Rightarrow> string \<Rightarrow> string \<Rightarrow> int \<Rightarrow> sql_order \<Rightarrow> string list list
     \<Rightarrow> (string \<rightharpoonup> event list \<times> string option)
     \<Rightarrow> (error + (string \<rightharpoonup> event list \<times> string option)) \<times> effect list" where
  "stream_for_rooms_loop st from_key to_key limit ord [] results = (Inr results, [])"
| "stream_for_rooms_loop st from_key to_key limit ord (rm_ids # rest) results =
     (case gather_results
             (map (\<lambda>room. get_room_events_stream_for_room st room (Some from_key) to_key limit ord)
                rm_ids) of
        (Inl e, tr) \<Rightarrow> (Inl e, tr)
      | (Inr res, tr) \<Rightarrow>
          (case stream_for_rooms_loop st from_key to_key limit ord rest
                  (results ++ map_of (zip rm_ids res)) of
             (r, tr') \<Rightarrow> (r, tr @ tr')))"

definition get_room_events_stream_for_rooms ::
  "store \<Rightarrow> string list \<Rightarrow> string \<Rightarrow> string \<Rightarrow> int \<Rightarrow> sql_order
     \<Rightarrow> (error + (string \<rightharpoonup> event list \<times> string option)) \<times> effect list" where
  "get_room_events_stream_for_rooms st room_ids from_key to_key limit ord =
     (case parse_stream_token from_key of
        Inl e \<Rightarrow> (Inl e, [])
      | Inr from_tok \<Rightarrow>
          let from_id = stream from_tok;
              changed = get_entities_changed (events_stream_cache st) room_ids from_id;
              asked = [GetEntitiesChanged room_ids from_id]
          in if changed = [] then (Inr Map.empty, asked)
             else
               (case stream_for_rooms_loop st from_key to_key limit ord
                       (chunks_of_20 changed) Map.empty of
                  (r, tr) \<Rightarrow> (r, asked @ tr)))"

text \<open>
  The rows that the transaction function of \<^verbatim>\<open>get_membership_changes_for_user\<close>
  selects: the join of \<^verbatim>\<open>events\<close> with \<^verbatim>\<open>room_memberships\<close> on the event id, for
  the memberships of the user, one row for each pair that matches, with the event id of
  the pair and the stream ordering of its event.
\<close>

definition membership_rows ::
  "row list \<Rightarrow> membership list \<Rightarrow> string \<Rightarrow> int option \<Rightarrow> int \<Rightarrow> row list" where
  "membership_rows tbl memberships user from_id to_id =
     order_by ASC stream_ordering
       (concat (map (\<lambda>e. map (\<lambda>m. e)
                            (filter (\<lambda>m. event_id e = m_event_id m \<and> user_id m = user)
                               memberships))
                  (filter (\<lambda>e. (case from_id of None \<Rightarrow> True | Some f \<Rightarrow> stream_ordering e > f)
                              \<and> stream_ordering e \<le> to_id) tbl)))"

definition get_membership_changes_for_user ::
  "store \<Rightarrow> string \<Rightarrow> string option \<Rightarrow> string \<Rightarrow> (error + event list) \<times> effect list" where
  "get_membership_changes_for_user st user from_key to_key =
     (case (case from_key of
              None \<Rightarrow> Inr None
            | Some k \<Rightarrow> (case parse_stream_token k of
                          Inl e \<Rightarrow> Inl e | Inr t \<Rightarrow> Inr (Some (stream t)))) of
        Inl e \<Rightarrow> (Inl e, [])
      | Inr from_id \<Rightarrow>
     (case parse_stream_token to_key of
        Inl e \<Rightarrow> (Inl e, [])
      | Inr to_tok \<Rightarrow>
          if from_key = Some to_key then (Inr [], [])
          else
            let asked = (case from_id of
                           None \<Rightarrow> []
                         | Some f \<Rightarrow> if f \<noteq> 0 then [HasMembershipChanged user f] else []);
                has_changed = (case from_id of
                           None \<Rightarrow> True
                         | Some f \<Rightarrow> if f \<noteq> 0 then membership_stream_cache st user f else True)
            in if \<not> has_changed then (Inr [], asked)
               else
                 let rows = membership_rows (events st) (room_memberships st) user from_id
                              (stream to_tok);
                     ret = get_events (events st) (map event_id rows);
                     ret = set_before_and_after ret rows False
                 in (Inr ret,
                     asked @ [RunInteraction ''get_membership_changes_for_user'',
                              GetEvents (map event_id rows)])))"

text \<open>
  The bounds of \<^verbatim>\<open>paginate_room_events\<close>: the expression pasted into the
  \<^verbatim>\<open>WHERE\<close> clause and the order keyword, or the error of a token that does not parse.
\<close>

definition paginate_bounds ::
  "string \<Rightarrow> string option \<Rightarrow> string \<Rightarrow> error + (sql_order \<times> sql_expr)" where
  "paginate_bounds from_key to_key direction =
     (case parse from_key of
        Inl e \<Rightarrow> Inl e
      | Inr from_tok \<Rightarrow>
          if direction = ''b'' then
            (case to_key of
               Some k \<Rightarrow>
                 if k \<noteq> [] then
                   (case parse k of
                      Inl e \<Rightarrow> Inl e
                    | Inr to_tok \<Rightarrow> Inr (DESC, And (upper_bound from_tok) (lower_bound to_tok)))
                 else Inr (DESC, upper_bound from_tok)
             | None \<Rightarrow> Inr (DESC, upper_bound from_tok))
          else
            (case to_key of
               Some k \<Rightarrow>
                 if k \<noteq> [] then
                   (case parse k of
                      Inl e \<Rightarrow> Inl e
                    | Inr to_tok \<Rightarrow> Inr (ASC, And (lower_bound from_tok) (upper_bound to_tok)))
                 else Inr (ASC, lower_bound from_tok)
             | None \<Rightarrow> Inr (ASC, lower_bound from_tok)))"

definition paginate_rows ::
  "row list \<Rightarrow> string \<Rightarrow> sql_order \<Rightarrow> sql_expr \<Rightarrow> int \<Rightarrow> row list" where
  "paginate_rows tbl room ord bounds limit =
     (let sorted_rows = order_by ord composite
            (filter (\<lambda>r. outlier r = False \<and> room_id r = room \<and> holds bounds r) tbl)
      in if limit > 0 then sql_limit limit sorted_rows else sorted_rows)"

definition paginate_next_token ::
  "row list \<Rightarrow> string \<Rightarrow> string option \<Rightarrow> string \<Rightarrow> string" where
  "paginate_next_token rows from_key to_key direction =
     (if rows \<noteq> [] then
        (let topo = topological_ordering (last rows);
             toke = stream_ordering (last rows);
             toke = (if direction = ''b'' then toke - 1 else toke)
         in str_token \<lparr>topological = Some topo, stream = toke\<rparr>)
      else (case to_key of
              Some k \<Rightarrow> if k \<noteq> [] then k else from_key
            | None \<Rightarrow> from_key))"

definition paginate_room_events ::
  "store \<Rightarrow> string \<Rightarrow> string \<Rightarrow> string option \<Rightarrow> string \<Rightarrow> int
     \<Rightarrow> (error + event list \<times> string) \<times> effect list" where
  "paginate_room_events st room from_key to_key direction limit =
     (case paginate_bounds from_key to_key direction of
        Inl e \<Rightarrow> (Inl e, [])
      | Inr (ord, bounds) \<Rightarrow>
          let rows = paginate_rows (events st) room ord bounds limit;
              token = paginate_next_token rows from_key to_key direction;
              evs = get_events (events st) (map event_id rows);
              evs = set_before_and_after evs rows True
          in (Inr (evs, token),
              [RunInteraction ''paginate_room_events'', GetEvents (map event_id rows)]))"

text \<open>
  \<^verbatim>\<open>get_recent_event_ids_for_room\<close> (its memoisation left out: one call computes
  what is given here) and \<^verbatim>\<open>get_recent_events_for_room\<close>.
\<close>

definition recent_rows :: "row list \<Rightarrow> string \<Rightarrow> int \<Rightarrow> int \<Rightarrow> int option \<Rightarrow> row list" where
  "recent_rows tbl room limit end_id from_id =
     rev (sql_limit limit (order_by DESC composite
       (filter (\<lambda>r. room_id r = room
                   \<and> (case from_id of None \<Rightarrow> True | Some f \<Rightarrow> stream_ordering r > f)
                   \<and> stream_ordering r \<le> end_id \<and> outlier r = False) tbl)))"

definition get_recent_event_ids_for_room ::
  "store \<Rightarrow> string \<Rightarrow> int \<Rightarrow> string \<Rightarrow> string option
     \<Rightarrow> (error + row list \<times> string \<times> string) \<times> effect list" where
  "get_recent_event_ids_for_room st room limit end_token from_token =
     (case parse_stream_token end_token of
        Inl e \<Rightarrow> (Inl e, [])
      | Inr end_tok \<Rightarrow>
     (case (case from_token of
              None \<Rightarrow> Inr None
            | Some k \<Rightarrow> (case parse_stream_token k of
                          Inl e \<Rightarrow> Inl e | Inr t \<Rightarrow> Inr (Some (stream t)))) of
        Inl e \<Rightarrow> (Inl e, [])
      | Inr from_id \<Rightarrow>
          let rows = recent_rows (events st) room limit (stream end_tok) from_id;
              token = (case rows of
                         [] \<Rightarrow> (str_token end_tok, str_token end_tok)
                       | r # rs \<Rightarrow>
                           (str_token \<lparr>topological = Some (topological_ordering r),
                                       stream = stream_ordering r - 1\<rparr>,
                            str_token end_tok))
          in (Inr (rows, token), [RunInteraction ''get_recent_events_for_room''])))"

definition get_recent_events_for_room ::
  "store \<Rightarrow> string \<Rightarrow> int \<Rightarrow> string \<Rightarrow> string option
     \<Rightarrow> (error + event list \<times> string \<times> string) \<times> effect list" where
  "get_recent_events_for_room st room limit end_token from_token =
     (case get_recent_event_ids_for_room st room limit end_token from_token of
        (Inl e, tr) \<Rightarrow> (Inl e, tr)
      | (Inr (rows, token), tr) \<Rightarrow>
          let evs = get_events (events st) (map event_id rows);
              evs = set_before_and_after evs rows True
          in (Inr (evs, token), tr @ [GetEvents (map event_id rows)]))"

text \<open>
  Modelled from the spec: \<^verbatim>\<open>_simple_select_one_txn\<close> belongs to the base store,
  which is defined outside the two modules embedded here. The specification gives the lookup of
  the pinned event as: the ordering columns of the event with this id in this room, and
  failure with \<^verbatim>\<open>EventNotFound\<close> if it is absent.
\<close>

definition simple_select_one_txn :: "row list \<Rightarrow> string \<Rightarrow> string \<Rightarrow> error + row" where
  "simple_select_one_txn tbl eid room =
     (case find (\<lambda>r. event_id r = eid \<and> room_id r = room) tbl of
        None \<Rightarrow> Inl EventNotFound
      | Some r \<Rightarrow> Inr r)"

record around_ids =
  before_event_ids :: "string list"
  before_token :: string
  after_event_ids :: "string list"
  after_token :: string

definition query_before :: "row list \<Rightarrow> string \<Rightarrow> int \<Rightarrow> int \<Rightarrow> int \<Rightarrow> row list" where
  "query_before tbl room topo strm limit =
     sql_limit limit (order_by DESC composite
       (filter (\<lambda>r. room_id r = room
                   \<and> (topological_ordering r < topo
                        \<or> (topological_ordering r = topo \<and> stream_ordering r < strm))) tbl))"

definition query_after :: "row list \<Rightarrow> string \<Rightarrow> int \<Rightarrow> int \<Rightarrow> int \<Rightarrow> row list" where
  "query_after tbl room topo strm limit =
     sql_limit limit (order_by ASC composite
       (filter (\<lambda>r. room_id r = room
                   \<and> (topological_ordering r > topo
                        \<or> (topological_ordering r = topo \<and> stream_ordering r > strm))) tbl))"

definition get_events_around_txn ::
  "row list \<Rightarrow> string \<Rightarrow> string \<Rightarrow> int \<Rightarrow> int \<Rightarrow> error + around_ids" where
  "get_events_around_txn tbl room eid before_limit after_limit =
     (case simple_select_one_txn tbl eid room of
        Inl e \<Rightarrow> Inl e
      | Inr results \<Rightarrow>
          let strm = stream_ordering results;
              topo = topological_ordering results;
              rows = query_before tbl room topo strm before_limit;
              events_before = map event_id rows;
              start_token = (case rows of
                               r # rs \<Rightarrow> str_token \<lparr>topological = Some (topological_ordering r),
                                                      stream = stream_ordering r - 1\<rparr>
                             | [] \<Rightarrow> str_token \<lparr>topological = Some topo, stream = strm - 1\<rparr>);
              rows = query_after tbl room topo strm after_limit;
              events_after = map event_id rows;
              end_token = (if rows \<noteq> [] then
                             str_token \<lparr>topological = Some (topological_ordering (last rows)),
                                        stream = stream_ordering (last rows)\<rparr>
                           else str_token \<lparr>topological = Some topo, stream = strm\<rparr>)
          in Inr \<lparr>before_event_ids = events_before, before_token = start_token,
                  after_event_ids = events_after, after_token = end_token\<rparr>)"

record events_around =
  events_before :: "event list"
  events_after :: "event list"
  start :: string
  end_token :: string

definition get_events_around ::
  "store \<Rightarrow> string \<Rightarrow> string \<Rightarrow> int \<Rightarrow> int \<Rightarrow> (error + events_around) \<times> effect list" where
  "get_events_around st room eid before_limit after_limit =
     (case get_events_around_txn (events st) room eid before_limit after_limit of
        Inl e \<Rightarrow> (Inl e, [RunInteraction ''get_events_around''])
      | Inr results \<Rightarrow>
          (Inr \<lparr>events_before = get_events (events st) (before_event_ids results),
                events_after = get_events (events st) (after_event_ids results),
                start = before_token results,
                end_token = after_token results\<rparr>,
           [RunInteraction ''get_events_around'',
            GetEvents (before_event_ids results),
            GetEvents (after_event_ids results)]))"

section \<open>The dependency container of the home server\<close>

definition DEPENDENCIES :: "string list" where
  "DEPENDENCIES =
     [''config'', ''clock'', ''http_client'', ''db_pool'', ''persistence_service'',
      ''replication_layer'', ''datastore'', ''handlers'', ''v1auth'', ''auth'',
      ''rest_servlet_factory'', ''state_handler'', ''notifier'', ''distributor'',
      ''client_resource'', ''resource_for_federation'', ''resource_for_static_content'',
      ''resource_for_web_client'', ''resource_for_content_repo'',
      ''resource_for_server_key'', ''resource_for_server_key_v2'',
      ''resource_for_media_repository'', ''resource_for_metrics'', ''event_sources'',
      ''ratelimiter'', ''keyring'', ''pusherpool'', ''event_builder_factory'',
      ''filtering'', ''http_client_context_factory'', ''simple_http_client'']"

text \<open>
  The home server object, as far as the accessors \<^verbatim>\<open>get_DEPENDENCY\<close> use it: the
  attributes set on the instance and the dictionary \<^verbatim>\<open>_building\<close>. A builder method \<^verbatim>\<open>build_DEPENDENCY\<close> is given by the accessors it calls on the
  instance, in the order of the calls, and by the value it makes of what they return;
  an exception raised by one of these calls leaves the builder.
\<close>

record 'v home_server =
  attrs :: "string \<rightharpoonup> 'v"
  building :: "string \<rightharpoonup> int"

record 'v builder =
  needs :: "string list"
  construct :: "'v list \<Rightarrow> 'v"

datatype dep_error =
    CyclicDependency string
  | NoBuilder string
  | NoAccessor string
  | KeyError string

text \<open>
  The accessor \<^verbatim>\<open>_get\<close> that \<^verbatim>\<open>_make_dependency_method(depname)\<close> installs as
  \<^verbatim>\<open>get_depname\<close>, for the names of \<^verbatim>\<open>DEPENDENCIES\<close> only. A builder may call
  accessors, which call builders: the first argument bounds the depth of these calls,
  and \<open>None\<close> is the answer of a run that needs more. An exception is returned with
  the state the object is left in: \<^verbatim>\<open>ValueError("Cyclic dependency while building d")\<close>
  is \<open>CyclicDependency d\<close>, \<^verbatim>\<open>NotImplementedError\<close> is \<open>NoBuilder d\<close>, the
  \<^verbatim>\<open>AttributeError\<close> of an accessor that does not exist is \<open>NoAccessor d\<close>, and the
  \<^verbatim>\<open>KeyError\<close> of \<^verbatim>\<open>del hs._building[d]\<close> on a missing key is \<open>KeyError d\<close>.
\<close>

fun get_dependency ::
    "nat \<Rightarrow> (string \<rightharpoonup> 'v builder) \<Rightarrow> 'v home_server \<Rightarrow> string
       \<Rightarrow> ((dep_error + 'v) \<times> 'v home_server) option"
  and call_accessors ::
    "nat \<Rightarrow> (string \<rightharpoonup> 'v builder) \<Rightarrow> 'v home_server \<Rightarrow> string list
       \<Rightarrow> ((dep_error + 'v list) \<times> 'v home_server) option" where
  "get_dependency 0 builders hs depname = None"
| "get_dependency (Suc n) builders hs depname =
     (if depname \<notin> set DEPENDENCIES then Some (Inl (NoAccessor depname), hs)
      else case attrs hs depname of
        Some v \<Rightarrow> Some (Inr v, hs)
      | None \<Rightarrow>
          (case builders depname of
             None \<Rightarrow> Some (Inl (NoBuilder depname), hs)
           | Some b \<Rightarrow>
               if depname \<in> dom (building hs) then Some (Inl (CyclicDependency depname), hs)
               else
                 (case call_accessors n builders
                         (hs\<lparr>building := (building hs)(depname \<mapsto> 1)\<rparr>) (needs b) of
                    None \<Rightarrow> None
                  | Some (Inl e, hs1) \<Rightarrow> Some (Inl e, hs1)
                  | Some (Inr vs, hs1) \<Rightarrow>
                      let dep = construct b vs;
                          hs2 = hs1\<lparr>attrs := (attrs hs1)(depname \<mapsto> dep)\<rparr>
                      in if depname \<in> dom (building hs2)
                         then Some (Inr dep, hs2\<lparr>building := (building hs2)(depname := None)\<rparr>)
                         else Some (Inl (KeyError depname), hs2))))"
| "call_accessors n builders hs [] = Some (Inr [], hs)"
| "call_accessors n builders hs (d # ds) =
     (case get_dependency n builders hs d of
        None \<Rightarrow> None
      | Some (Inl e, hs1) \<Rightarrow> Some (Inl e, hs1)
      | Some (Inr v, hs1) \<Rightarrow>
          (case call_accessors n builders hs1 ds of
             None \<Rightarrow> None
           | Some (Inl e, hs2) \<Rightarrow> Some (Inl e, hs2)
           | Some (Inr vs, hs2) \<Rightarrow> Some (Inr (v # vs), hs2)))"

section \<open>Scenarios\<close>

text \<open>
  The room of the specification's scenarios: \<open>rs\<close> lists five events of the room with
  stream orderings 1 to 5, topological orderings and depths 1 to 5, none an outlier.
\<close>

definition five_events :: "string \<Rightarrow> row list \<Rightarrow> bool" where
  "five_events room rs =
     (list_all (\<lambda>r. room_id r = room \<and> \<not> outlier r) rs
      \<and> map stream_ordering rs = [1, 2, 3, 4, 5]
      \<and> map topological_ordering rs = [1, 2, 3, 4, 5]
      \<and> map depth rs = [1, 2, 3, 4, 5])"

definition message_row :: "string \<Rightarrow> string \<Rightarrow> int \<Rightarrow> row" where
  "message_row eid room n =
     \<lparr>event_id = eid, room_id = room, type = ''m.room.message'', state_key = None,
      outlier = False, stream_ordering = n, topological_ordering = n, depth = n\<rparr>"

definition live_room :: "row list" where
  "live_room =
     [message_row ''$e1'' ''!R'' 1, message_row ''$e2'' ''!R'' 2, message_row ''$e3'' ''!R'' 3,
      message_row ''$e4'' ''!R'' 4, message_row ''$e5'' ''!R'' 5]"

definition always_changed :: "string \<Rightarrow> int \<Rightarrow> bool" where
  "always_changed room_key stream_id = True"

definition live_store :: store where
  "live_store =
     \<lparr>events = live_room, events_stream_cache = always_changed,
      room_memberships = [], membership_stream_cache = always_changed\<rparr>"

text \<open>
  The application service scenario: a service with no rooms of its own that is
  interested in the user \<^verbatim>\<open>@u:hs\<close>, and a room with two messages around the join of
  that user.
\<close>

definition member_row :: "string \<Rightarrow> string \<Rightarrow> string \<Rightarrow> int \<Rightarrow> row" where
  "member_row eid room user n =
     \<lparr>event_id = eid, room_id = room, type = ''m.room.member'', state_key = Some user,
      outlier = False, stream_ordering = n, topological_ordering = n, depth = n\<rparr>"

definition bridge_room :: "row list" where
  "bridge_room =
     [message_row ''$e1'' ''!R'' 1, member_row ''$e2'' ''!R'' ''@u:hs'' 2,
      message_row ''$e3'' ''!R'' 3]"

definition bridge_store :: store where
  "bridge_store =
     \<lparr>events = bridge_room, events_stream_cache = always_changed,
      room_memberships = [\<lparr>m_event_id = ''$e2'', user_id = ''@u:hs''\<rparr>],
      membership_stream_cache = always_changed\<rparr>"

definition bridge_service :: app_service where
  "bridge_service =
     \<lparr>rooms_for_as = [], is_interested_in_user = (\<lambda>user. user = Some ''@u:hs'')\<rparr>"

text \<open>
  A room whose second event is an outlier, and a service interested in that room.
\<close>

definition outlier_room :: "row list" where
  "outlier_room =
     [message_row ''$e1'' ''!R'' 1, (message_row ''$e2'' ''!R'' 2)\<lparr>outlier := True\<rparr>,
      message_row ''$e3'' ''!R'' 3]"

definition outlier_store :: store where
  "outlier_store =
     \<lparr>events = outlier_room, events_stream_cache = always_changed,
      room_memberships = [], membership_stream_cache = always_changed\<rparr>"

definition room_service :: app_service where
  "room_service = \<lparr>rooms_for_as = [''!R''], is_interested_in_user = (\<lambda>user. False)\<rparr>"

text \<open>The projections of an operation's answer: its events and its next token.\<close>

definition returned_events :: "('e + 'a list \<times> 'k) \<times> effect list \<Rightarrow> 'e + 'a list" where
  "returned_events res = (case fst res of Inl e \<Rightarrow> Inl e | Inr (evs, key) \<Rightarrow> Inr evs)"

definition returned_token :: "('e + 'a list \<times> 'k) \<times> effect list \<Rightarrow> 'e + 'k" where
  "returned_token res = (case fst res of Inl e \<Rightarrow> Inl e | Inr (evs, key) \<Rightarrow> Inr key)"

text \<open>
  A home server with a clock, builders for \<^verbatim>\<open>auth\<close> and \<^verbatim>\<open>handlers\<close> that
  depend on it, builders for \<^verbatim>\<open>notifier\<close> and \<^verbatim>\<open>keyring\<close> that depend on each
  other, and a builder for \<^verbatim>\<open>pusherpool\<close> that asks for the clock and then for the
  pusher pool itself. The dependencies are numbers here, a built one the sum of what it
  needs.
\<close>

definition example_builders :: "string \<rightharpoonup> nat builder" where
  "example_builders =
     [''auth'' \<mapsto> \<lparr>needs = [''clock'', ''handlers''], construct = sum_list\<rparr>,
      ''handlers'' \<mapsto> \<lparr>needs = [''clock''], construct = (\<lambda>vs. 10 + sum_list vs)\<rparr>,
      ''notifier'' \<mapsto> \<lparr>needs = [''keyring''], construct = sum_list\<rparr>,
      ''keyring'' \<mapsto> \<lparr>needs = [''notifier''], construct = sum_list\<rparr>,
      ''pusherpool'' \<mapsto> \<lparr>needs = [''clock'', ''pusherpool''], construct = sum_list\<rparr>]"

definition example_server :: "nat home_server" where
  "example_server = \<lparr>attrs = [''clock'' \<mapsto> 1], building = Map.empty\<rparr>"

definition batch :: "('e + 'a list \<times> 'k) \<times> effect list \<Rightarrow> 'a list" where
  "batch res = (case fst res of Inl e \<Rightarrow> [] | Inr (evs, key) \<Rightarrow> evs)"

text \<open>
  The same for the operations that answer otherwise: the list of
  \<^verbatim>\<open>get_membership_changes_for_user\<close>, the two lists of \<^verbatim>\<open>get_events_around\<close> and
  the list returned for a room by \<^verbatim>\<open>get_room_events_stream_for_rooms\<close>.
\<close>

definition returned_list :: "('e + 'a list) \<times> effect list \<Rightarrow> 'a list" where
  "returned_list res = (case fst res of Inl e \<Rightarrow> [] | Inr evs \<Rightarrow> evs)"

definition window_before :: "('e + events_around) \<times> effect list \<Rightarrow> event list" where
  "window_before res = (case fst res of Inl e \<Rightarrow> [] | Inr w \<Rightarrow> events_before w)"

definition window_after :: "('e + events_around) \<times> effect list \<Rightarrow> event list" where
  "window_after res = (case fst res of Inl e \<Rightarrow> [] | Inr w \<Rightarrow> events_after w)"

definition room_batch ::
  "('e + (string \<rightharpoonup> 'a list \<times> 'k)) \<times> effect list \<Rightarrow> string \<Rightarrow> 'a list" where
  "room_batch res room =
     (case fst res of
        Inl e \<Rightarrow> []
      | Inr results \<Rightarrow> (case results room of None \<Rightarrow> [] | Some (evs, key) \<Rightarrow> evs))"

text \<open>
  A room whose first received event lies deeper in the event graph than its second: the
  stream order and the composite order of the two differ.
\<close>

definition backfill_room :: "row list" where
  "backfill_room =
     [(message_row ''$e1'' ''!R'' 1)\<lparr>topological_ordering := 3, depth := 3\<rparr>,
      (message_row ''$e2'' ''!R'' 2)\<lparr>topological_ordering := 1, depth := 1\<rparr>]"

definition backfill_store :: store where
  "backfill_store =
     \<lparr>events = backfill_room, events_stream_cache = always_changed,
      room_memberships = [], membership_stream_cache = always_changed\<rparr>"

section \<open>Properties\<close>

lemma render_lower_bound_stream:
  "render (lower_bound \<lparr>topological = None, stream = s\<rparr>)
     = ''('' @ show_int s @ '' < stream_ordering)''"
  by (simp add: lower_bound_def column_name_def cmp_name_def)

lemma render_lower_bound_topological:
  "render (lower_bound \<lparr>topological = Some t, stream = s\<rparr>)
     = ''('' @ show_int t @ '' < topological_ordering OR ('' @ show_int t
         @ '' = topological_ordering AND '' @ show_int s @ '' < stream_ordering))''"
  by (simp add: lower_bound_def column_name_def cmp_name_def)

lemma render_upper_bound_stream:
  "render (upper_bound \<lparr>topological = None, stream = s\<rparr>)
     = ''('' @ show_int s @ '' >= stream_ordering)''"
  by (simp add: upper_bound_def column_name_def cmp_name_def)

lemma render_upper_bound_topological:
  "render (upper_bound \<lparr>topological = Some t, stream = s\<rparr>)
     = ''('' @ show_int t @ '' > topological_ordering OR ('' @ show_int t
         @ '' = topological_ordering AND '' @ show_int s @ '' >= stream_ordering))''"
  by (simp add: upper_bound_def column_name_def cmp_name_def)

lemma holds_lower_bound:
  "holds (lower_bound T) r =
     (case topological T of
        None \<Rightarrow> stream T < stream_ordering r
      | Some topo \<Rightarrow> (topo, stream T) < composite r)"
  by (auto simp: lower_bound_def cmp_holds_def column_value_def composite_def
      less_prod_def split: option.splits)

lemma holds_upper_bound:
  "holds (upper_bound T) r =
     (case topological T of
        None \<Rightarrow> stream_ordering r \<le> stream T
      | Some topo \<Rightarrow> composite r \<le> (topo, stream T))"
  by (auto simp: upper_bound_def cmp_holds_def column_value_def composite_def
      less_eq_prod_def split: option.splits)

text \<open>
  C5. For every token \<open>T\<close> and every row, the predicate built by \<open>lower_bound T\<close>
  holds exactly when the row is strictly greater than \<open>T\<close> (\<open>T.stream < stream_ordering\<close>
  for a stream token, the strict lexicographic comparison on (topological ordering,
  stream ordering) for a topological token), and the predicate built by
  \<open>upper_bound T\<close> holds exactly when the row is less than or equal to \<open>T\<close>
  (\<open>T.stream \<ge> stream_ordering\<close>, respectively the inclusive lexicographic comparison):
  the low side is strict and the high side inclusive, and each row satisfies exactly
  one of the two.
\<close>

theorem bounds_select_strictly_above_and_at_or_below:
  "holds (lower_bound \<lparr>topological = None, stream = s\<rparr>) r = (s < stream_ordering r)
   \<and> holds (lower_bound \<lparr>topological = Some t, stream = s\<rparr>) r
       = (t < topological_ordering r \<or> (t = topological_ordering r \<and> s < stream_ordering r))
   \<and> holds (lower_bound \<lparr>topological = Some t, stream = s\<rparr>) r = ((t, s) < composite r)
   \<and> holds (upper_bound \<lparr>topological = None, stream = s\<rparr>) r = (s \<ge> stream_ordering r)
   \<and> holds (upper_bound \<lparr>topological = Some t, stream = s\<rparr>) r
       = (t > topological_ordering r \<or> (t = topological_ordering r \<and> s \<ge> stream_ordering r))
   \<and> holds (upper_bound \<lparr>topological = Some t, stream = s\<rparr>) r = (composite r \<le> (t, s))
   \<and> holds (upper_bound T) r = (\<not> holds (lower_bound T) r)"
  by (auto simp: holds_lower_bound holds_upper_bound composite_def less_prod_def
      less_eq_prod_def split: option.splits)

subsection \<open>Events loaded for selected rows\<close>

lemma find_by_event_id:
  "distinct (map event_id tbl) \<Longrightarrow> r \<in> set tbl \<Longrightarrow> find (\<lambda>x. event_id x = event_id r) tbl = Some r"
proof (induction tbl)
  case Nil
  then show ?case by simp
next
  case (Cons a tbl)
  then show ?case by (cases "a = r") (auto simp: image_iff)
qed

lemma get_events_of_rows:
  "distinct (map event_id tbl) \<Longrightarrow> set rows \<subseteq> set tbl
     \<Longrightarrow> get_events tbl (map event_id rows) = map new_event rows"
  by (induction rows) (simp_all add: get_events_def map_filter_simps find_by_event_id)

lemma length_set_before_and_after [simp]:
  "length (set_before_and_after evs rows b) = length evs"
  by (induction evs rows b rule: set_before_and_after.induct) simp_all

lemma nth_set_before_and_after:
  "i < length evs \<Longrightarrow> i < length rows
     \<Longrightarrow> set_before_and_after evs rows b ! i = annotate (evs ! i) (rows ! i) b"
proof (induction evs rows b arbitrary: i rule: set_before_and_after.induct)
  case (3 ev evs r rs topo_order)
  then show ?case by (cases i) simp_all
qed simp_all

lemma ev_row_annotate [simp]: "ev_row (annotate ev r b) = ev_row ev"
  by (simp add: annotate_def Let_def)

lemma ev_row_set_before_and_after [simp]:
  "map ev_row (set_before_and_after evs rows b) = map ev_row evs"
  by (induction evs rows b rule: set_before_and_after.induct) simp_all

lemma ev_row_new_event [simp]: "ev_row (new_event r) = r"
  by (simp add: new_event_def)

lemma set_order_by [simp]: "set (order_by ord key rows) = set rows"
  by (cases ord) (simp_all add: order_by_def)

lemma set_sql_limit: "set (sql_limit n rows) \<subseteq> set rows"
  by (auto simp: sql_limit_def dest: in_set_takeD)

lemma sorted_order_by_ASC: "sorted (map key (order_by ASC key rows))"
  by (simp add: order_by_def)

lemma sorted_order_by_DESC: "sorted (rev (map key (order_by DESC key rows)))"
  by (simp add: order_by_def rev_map)

lemma sorted_take_map: "sorted (map f xs) \<Longrightarrow> sorted (map f (take n xs))"
  by (metis sorted_wrt_take take_map)

lemma sorted_rev_take_map: "sorted (rev (map f xs)) \<Longrightarrow> sorted (rev (map f (take n xs)))"
proof -
  assume "sorted (rev (map f xs))"
  then have "sorted_wrt (\<lambda>a b. b \<le> a) (map f xs)" by (simp add: sorted_wrt_rev)
  then have "sorted_wrt (\<lambda>a b. b \<le> a) (take n (map f xs))" by (rule sorted_wrt_take)
  then show ?thesis by (simp add: sorted_wrt_rev take_map)
qed

lemma sorted_sql_limit: "sorted (map f xs) \<Longrightarrow> sorted (map f (sql_limit n xs))"
  by (simp add: sql_limit_def sorted_take_map)

lemma sorted_rev_sql_limit: "sorted (rev (map f xs)) \<Longrightarrow> sorted (rev (map f (sql_limit n xs)))"
  by (simp add: sql_limit_def sorted_rev_take_map)

subsection \<open>Tokens are read back as they were written\<close>

lemma digit_val_digit_char: "d < 10 \<Longrightarrow> digit_val (digit_char d) = Some d"
proof -
  assume "d < 10"
  then have "d \<in> {0, 1, 2, 3, 4, 5, 6, 7, 8, 9}" by auto
  then show ?thesis
    by (auto simp: digit_val_def digit_char_def decimal_digits_def)
qed

lemma digit_val_minus [simp]: "digit_val CHR ''-'' = None"
  by (simp add: digit_val_def decimal_digits_def)

lemma read_digits_snoc:
  "read_digits acc (xs @ [c]) =
     (case read_digits acc xs of
        None \<Rightarrow> None
      | Some m \<Rightarrow> (case digit_val c of None \<Rightarrow> None | Some d \<Rightarrow> Some (10 * m + d)))"
  by (induction xs arbitrary: acc) (auto split: option.splits)

lemma read_digits_digits: "read_digits 0 (digits n) = Some n"
proof (induction n rule: digits.induct)
  case (1 n)
  show ?case
  proof (cases "n < 10")
    case True
    then show ?thesis by (subst digits.simps) (simp add: digit_val_digit_char)
  next
    case False
    with 1 have "read_digits 0 (digits (n div 10)) = Some (n div 10)" by simp
    with False show ?thesis
      by (subst digits.simps) (simp add: read_digits_snoc digit_val_digit_char)
  qed
qed

lemma digits_not_Nil: "digits n \<noteq> []"
  by (subst digits.simps) simp

lemma is_digit_digits: "c \<in> set (digits n) \<Longrightarrow> is_digit c"
proof (induction n rule: digits.induct)
  case (1 n)
  show ?case
  proof (cases "n < 10")
    case True
    from 1(2) have "c = digit_char n"
      by (subst (asm) digits.simps) (use True in auto)
    with True show ?thesis by (simp add: is_digit_def digit_val_digit_char)
  next
    case False
    from 1(2) have "c \<in> set (digits (n div 10)) \<or> c = digit_char (n mod 10)"
      by (subst (asm) digits.simps) (use False in auto)
    then show ?thesis
      using 1(1) False by (auto simp: is_digit_def digit_val_digit_char)
  qed
qed

lemma read_nat_digits: "read_nat (digits n) = Some n"
  by (simp add: read_nat_def digits_not_Nil read_digits_digits)

lemma hd_digits_not_minus: "hd (digits n) \<noteq> CHR ''-''"
proof
  assume h: "hd (digits n) = CHR ''-''"
  have "hd (digits n) \<in> set (digits n)" by (simp add: digits_not_Nil)
  then have "is_digit (hd (digits n))" by (rule is_digit_digits)
  with h show False by (simp add: is_digit_def)
qed

lemma read_int_show_int: "read_int (show_int i) = Some i"
proof (cases "i < 0")
  case True
  then show ?thesis by (simp add: read_int_def show_int_def read_nat_digits)
next
  case False
  obtain c cs where cs: "digits (nat i) = c # cs"
    using digits_not_Nil by (cases "digits (nat i)") auto
  with hd_digits_not_minus [of "nat i"] have "c \<noteq> CHR ''-''" by simp
  with False cs read_nat_digits [of "nat i"] show ?thesis
    by (simp add: read_int_def show_int_def)
qed

lemma takeWhile_digits: "takeWhile is_digit (digits n @ CHR ''-'' # rest) = digits n"
proof -
  have "\<not> is_digit CHR ''-''" by (simp add: is_digit_def)
  then show ?thesis by (simp add: takeWhile_tail is_digit_digits)
qed

lemma dropWhile_digits: "dropWhile is_digit (digits n @ CHR ''-'' # rest) = CHR ''-'' # rest"
proof -
  have "\<not> is_digit CHR ''-''" by (simp add: is_digit_def)
  then show ?thesis by (simp add: dropWhile_append3 is_digit_digits)
qed

lemma split_topological_show_int:
  "split_topological (show_int a @ CHR ''-'' # rest) = Some (show_int a, rest)"
proof (cases "a < 0")
  case True
  then show ?thesis
    by (simp add: split_topological_def show_int_def takeWhile_digits dropWhile_digits)
next
  case False
  obtain c cs where cs: "digits (nat a) = c # cs"
    using digits_not_Nil by (cases "digits (nat a)") auto
  with hd_digits_not_minus [of "nat a"] have "c \<noteq> CHR ''-''" by simp
  with False cs show ?thesis
    using takeWhile_digits [of "nat a" rest] dropWhile_digits [of "nat a" rest]
    by (simp add: split_topological_def show_int_def)
qed

lemma parse_str_token: "parse (str_token t) = Inr t"
proof (cases "topological t")
  case None
  then show ?thesis by (simp add: parse_def str_token_def read_int_show_int)
next
  case (Some a)
  then show ?thesis
    by (simp add: parse_def str_token_def split_topological_show_int read_int_show_int)
qed

lemma str_token_inject: "str_token t = str_token u \<longleftrightarrow> t = u"
proof
  assume "str_token t = str_token u"
  then have "parse (str_token t) = parse (str_token u)" by simp
  then show "t = u" by (simp add: parse_str_token)
qed simp

lemma show_int_inject: "show_int i = show_int j \<longleftrightarrow> i = j"
proof
  assume "show_int i = show_int j"
  then have "read_int (show_int i) = read_int (show_int j)" by simp
  then show "i = j" by (simp add: read_int_show_int)
qed simp

subsection \<open>Sorting rows with distinct keys\<close>

lemma sort_key_unique:
  assumes "mset xs = mset ys" and "sorted (map f ys)" and "distinct (map f ys)"
  shows "sort_key f xs = ys"
proof (rule map_sorted_distinct_set_unique [where f = f])
  have sx: "set xs = set ys" using assms(1) by (rule mset_eq_setD)
  show "inj_on f (set (sort_key f xs) \<union> set ys)"
    using assms(3) sx by (simp add: distinct_map)
  show "sorted (map f (sort_key f xs))" by simp
  have "mset (map f (sort_key f xs)) = mset (map f ys)"
    using assms(1) by simp
  then show "distinct (map f (sort_key f xs))"
    using assms(3) by (metis mset_eq_imp_distinct_iff)
  show "sorted (map f ys)" by (rule assms(2))
  show "distinct (map f ys)" by (rule assms(3))
  show "set (sort_key f xs) = set ys" using sx by simp
qed

subsection \<open>The scenarios of the five-event room\<close>

lemma five_eventsE:
  assumes "five_events room rs"
  obtains r1 r2 r3 r4 r5 where "rs = [r1, r2, r3, r4, r5]"
proof -
  from assms have "length (map stream_ordering rs) = 5" by (simp add: five_events_def)
  then have "length rs = 5" by simp
  then show ?thesis using that
    by (auto simp: length_Suc_conv eval_nat_numeral)
qed

lemma mset_filter_room:
  assumes "mset (filter (\<lambda>r. room_id r = room) tbl) = mset rs"
  shows "mset (filter (\<lambda>r. room_id r = room \<and> Q r) tbl) = mset (filter Q rs)"
proof -
  have "filter (\<lambda>r. room_id r = room \<and> Q r) tbl = filter Q (filter (\<lambda>r. room_id r = room) tbl)"
    by (simp add: conj_commute)
  then show ?thesis using assms by (simp only: mset_filter)
qed

lemma room_rows_in_table:
  assumes "mset (filter (\<lambda>r. room_id r = room) tbl) = mset rs"
  shows "set rs \<subseteq> set tbl"
proof -
  have "set rs = set (filter (\<lambda>r. room_id r = room) tbl)"
    using assms by (metis mset_eq_setD)
  then show ?thesis by auto
qed

lemma parse_stream_token_s2: "parse_stream_token ''s2'' = Inr \<lparr>topological = None, stream = 2\<rparr>"
  by code_simp

lemma parse_stream_token_s5: "parse_stream_token ''s5'' = Inr \<lparr>topological = None, stream = 5\<rparr>"
  by code_simp

lemma show_int_digit: "0 \<le> i \<Longrightarrow> i < 10 \<Longrightarrow> show_int i = [digit_char (nat i)]"
  by (simp add: show_int_def digits.simps)

text \<open>
  C1 (amended). In a store whose events have distinct ids and whose room holds exactly
  five events with stream orderings 1 to 5 and depths 1 to 5, none an outlier, and whose
  change cache reports the room as changed since stream position 2,
  \<^verbatim>\<open>get_room_events_stream_for_room(R, "s2", "s5", 100, "ASC")\<close> returns the events with
  stream orderings 3, 4, 5 in that order, annotated with stream cursors, after one cache
  lookup, one database interaction and one load of events; the returned token is
  \<^verbatim>\<open>"s3"\<close>, the least stream ordering among the rows, not \<^verbatim>\<open>"s5"\<close>.
\<close>

theorem live_sync_scenario:
  assumes ids: "distinct (map event_id (events st))"
    and room: "mset (filter (\<lambda>r. room_id r = room) (events st)) = mset rs"
    and five: "five_events room rs"
    and changed: "events_stream_cache st room 2"
  shows "get_room_events_stream_for_room st room (Some ''s2'') ''s5'' 100 ASC =
           (Inr (map (\<lambda>r. annotate (new_event r) r False) [rs ! 2, rs ! 3, rs ! 4], Some ''s3''),
            [HasEntityChanged room 2, RunInteraction ''get_room_events_stream_for_room'',
             GetEvents (map event_id [rs ! 2, rs ! 3, rs ! 4])])
         \<and> map stream_ordering [rs ! 2, rs ! 3, rs ! 4] = [3, 4, 5]"
proof -
  from five obtain r1 r2 r3 r4 r5 where rs: "rs = [r1, r2, r3, r4, r5]"
    by (rule five_eventsE)
  from five rs have so: "stream_ordering r1 = 1" "stream_ordering r2 = 2" "stream_ordering r3 = 3"
      "stream_ordering r4 = 4" "stream_ordering r5 = 5"
    and out: "\<not> outlier r1" "\<not> outlier r2" "\<not> outlier r3" "\<not> outlier r4" "\<not> outlier r5"
    by (simp_all add: five_events_def)
  let ?Q = "\<lambda>r. \<not> outlier r \<and> 2 < stream_ordering r \<and> stream_ordering r \<le> 5"
  have "mset (filter (\<lambda>r. room_id r = room \<and> ?Q r) (events st)) = mset (filter ?Q rs)"
    using room by (rule mset_filter_room)
  also have "filter ?Q rs = [r3, r4, r5]"
    by (simp add: rs so out)
  finally have "sort_key stream_ordering (filter (\<lambda>r. room_id r = room \<and> ?Q r) (events st))
      = [r3, r4, r5]"
    by (rule sort_key_unique) (simp_all add: so)
  then have rows: "room_stream_rows (events st) room (Some 2) 5 100 ASC = [r3, r4, r5]"
    by (simp add: room_stream_rows_def order_by_def sql_limit_def)
  have "set [r3, r4, r5] \<subseteq> set (events st)"
    using room_rows_in_table [OF room] by (simp add: rs)
  with ids have evs: "get_events (events st) (map event_id [r3, r4, r5]) = map new_event [r3, r4, r5]"
    by (rule get_events_of_rows)
  have key: "min_stream_key [r3, r4, r5] (Some ''s2'') = Some ''s3''"
    by (simp add: min_stream_key_def so show_int_digit digit_char_def decimal_digits_def)
  show ?thesis
    using changed evs
    by (simp add: get_room_events_stream_for_room_def parse_stream_token_s2
        parse_stream_token_s5 rows key rs so Let_def)
qed


theorem live_sync_scenario_witness:
  "distinct (map event_id (events live_store))
   \<and> mset (filter (\<lambda>r. room_id r = ''!R'') (events live_store)) = mset live_room
   \<and> five_events ''!R'' live_room
   \<and> events_stream_cache live_store ''!R'' 2
   \<and> returned_token (get_room_events_stream_for_room live_store ''!R'' (Some ''s2'') ''s5'' 100 ASC)
       = Inr (Some ''s3'')
   \<and> map_sum id (map (event_id \<circ> ev_row))
         (returned_events
            (get_room_events_stream_for_room live_store ''!R'' (Some ''s2'') ''s5'' 100 ASC))
       = Inr [''$e3'', ''$e4'', ''$e5'']"
proof -
  have h1: "distinct (map event_id (events live_store))"
    by (simp add: live_store_def live_room_def message_row_def)
  have h2: "mset (filter (\<lambda>r. room_id r = ''!R'') (events live_store)) = mset live_room"
    by (simp add: live_store_def live_room_def message_row_def)
  have h3: "five_events ''!R'' live_room"
    by (simp add: five_events_def live_room_def message_row_def)
  have h4: "events_stream_cache live_store ''!R'' 2"
    by (simp add: live_store_def always_changed_def)
  show ?thesis
    using h1 h2 h3 h4 live_sync_scenario [OF h1 h2 h3 h4]
    by (simp add: returned_token_def returned_events_def live_room_def message_row_def)
qed

text \<open>
  C1 as stated fails: in the five-event room the returned token is \<^verbatim>\<open>"s3"\<close>.
\<close>

theorem live_sync_token_counterexample:
  "returned_token (get_room_events_stream_for_room live_store ''!R'' (Some ''s2'') ''s5'' 100 ASC)
     = Inr (Some ''s3'')
   \<and> returned_token (get_room_events_stream_for_room live_store ''!R'' (Some ''s2'') ''s5'' 100 ASC)
     \<noteq> Inr (Some ''s5'')"
  by code_simp

lemma parse_t5_5: "parse ''t5-5'' = Inr \<lparr>topological = Some 5, stream = 5\<rparr>"
  by code_simp

text \<open>
  C4 (amended). In a store whose events have distinct ids and whose room holds exactly
  five events with stream orderings 1 to 5 and depths 1 to 5, none an outlier,
  \<^verbatim>\<open>paginate_room_events(R, from_key="t5-5", to_key=None, direction='b', limit=2)\<close>
  returns the events with stream orderings 5 and 4, in this order, and the next token
  \<^verbatim>\<open>"t4-3"\<close>: the topological ordering of the last returned row and its stream
  ordering decremented by one. The upper bound \<^verbatim>\<open>"t5-5"\<close> is inclusive.
\<close>

theorem backward_pagination_scenario:
  assumes ids: "distinct (map event_id (events st))"
    and room: "mset (filter (\<lambda>r. room_id r = room) (events st)) = mset rs"
    and five: "five_events room rs"
  shows "paginate_room_events st room ''t5-5'' None ''b'' 2 =
           (Inr (map (\<lambda>r. annotate (new_event r) r True) [rs ! 4, rs ! 3], ''t4-3''),
            [RunInteraction ''paginate_room_events'', GetEvents (map event_id [rs ! 4, rs ! 3])])
         \<and> map stream_ordering [rs ! 4, rs ! 3] = [5, 4]"
proof -
  from five obtain r1 r2 r3 r4 r5 where rs: "rs = [r1, r2, r3, r4, r5]"
    by (rule five_eventsE)
  from five rs have so: "stream_ordering r1 = 1" "stream_ordering r2 = 2" "stream_ordering r3 = 3"
      "stream_ordering r4 = 4" "stream_ordering r5 = 5"
    and topo: "topological_ordering r1 = 1" "topological_ordering r2 = 2"
      "topological_ordering r3 = 3" "topological_ordering r4 = 4" "topological_ordering r5 = 5"
    and out: "\<not> outlier r1" "\<not> outlier r2" "\<not> outlier r3" "\<not> outlier r4" "\<not> outlier r5"
    by (simp_all add: five_events_def)
  let ?b = "upper_bound \<lparr>topological = Some 5, stream = 5\<rparr>"
  let ?Q = "\<lambda>r. outlier r = False \<and> holds ?b r"
  have bounds: "paginate_bounds ''t5-5'' None ''b'' = Inr (DESC, ?b)"
    by (simp add: paginate_bounds_def parse_t5_5)
  have "(\<lambda>r. outlier r = False \<and> room_id r = room \<and> holds ?b r)
      = (\<lambda>r. room_id r = room \<and> ?Q r)"
    by auto
  then have "mset (filter (\<lambda>r. outlier r = False \<and> room_id r = room \<and> holds ?b r) (events st))
      = mset (filter ?Q rs)"
    using mset_filter_room [OF room, of ?Q] by simp
  also have "filter ?Q rs = [r1, r2, r3, r4, r5]"
    by (simp add: rs so topo out holds_upper_bound composite_def)
  finally have "sort_key composite
      (filter (\<lambda>r. outlier r = False \<and> room_id r = room \<and> holds ?b r) (events st))
      = [r1, r2, r3, r4, r5]"
    by (rule sort_key_unique) (simp_all add: so topo composite_def)
  then have rows: "paginate_rows (events st) room DESC ?b 2 = [r5, r4]"
    by (simp add: paginate_rows_def order_by_def sql_limit_def)
  have "set [r5, r4] \<subseteq> set (events st)"
    using room_rows_in_table [OF room] by (simp add: rs)
  with ids have evs: "get_events (events st) (map event_id [r5, r4]) = map new_event [r5, r4]"
    by (rule get_events_of_rows)
  have key: "paginate_next_token [r5, r4] ''t5-5'' None ''b'' = ''t4-3''"
    by (simp add: paginate_next_token_def so topo str_token_def show_int_digit digit_char_def
        decimal_digits_def)
  show ?thesis
    using evs
    by (simp add: paginate_room_events_def bounds rows key rs so Let_def)
qed

theorem backward_pagination_scenario_witness:
  "distinct (map event_id (events live_store))
   \<and> mset (filter (\<lambda>r. room_id r = ''!R'') (events live_store)) = mset live_room
   \<and> five_events ''!R'' live_room
   \<and> returned_token (paginate_room_events live_store ''!R'' ''t5-5'' None ''b'' 2) = Inr ''t4-3''
   \<and> map_sum id (map (event_id \<circ> ev_row))
         (returned_events (paginate_room_events live_store ''!R'' ''t5-5'' None ''b'' 2))
       = Inr [''$e5'', ''$e4'']"
proof -
  have h1: "distinct (map event_id (events live_store))"
    by (simp add: live_store_def live_room_def message_row_def)
  have h2: "mset (filter (\<lambda>r. room_id r = ''!R'') (events live_store)) = mset live_room"
    by (simp add: live_store_def live_room_def message_row_def)
  have h3: "five_events ''!R'' live_room"
    by (simp add: five_events_def live_room_def message_row_def)
  show ?thesis
    using h1 h2 h3 backward_pagination_scenario [OF h1 h2 h3]
    by (simp add: returned_token_def returned_events_def live_room_def message_row_def)
qed

text \<open>
  C4 as stated fails: the events returned are the fifth and the fourth, and the next
  token is \<^verbatim>\<open>"t4-3"\<close>, not \<^verbatim>\<open>"t3-2"\<close>.
\<close>

theorem backward_pagination_counterexample:
  "map_sum id (map (event_id \<circ> ev_row))
       (returned_events (paginate_room_events live_store ''!R'' ''t5-5'' None ''b'' 2))
     = Inr [''$e5'', ''$e4'']
   \<and> returned_token (paginate_room_events live_store ''!R'' ''t5-5'' None ''b'' 2) = Inr ''t4-3''
   \<and> returned_token (paginate_room_events live_store ''!R'' ''t5-5'' None ''b'' 2) \<noteq> Inr ''t3-2''"
  by code_simp

text \<open>
  C6. For every room, every limit and order, and every valid token given both as
  \<^verbatim>\<open>from_key\<close> and as \<^verbatim>\<open>to_key\<close>, \<^verbatim>\<open>get_room_events_stream_for_room\<close> returns
  the empty list of events with \<^verbatim>\<open>from_key\<close> unchanged, and the list of its
  interactions is empty: no database interaction, no cache lookup, no load of events.
\<close>

theorem equal_tokens_no_interaction:
  assumes "parse_stream_token key = Inr t"
  shows "get_room_events_stream_for_room st room (Some key) key limit ord
           = (Inr ([], Some key), [])"
  using assms by (simp add: get_room_events_stream_for_room_def)

theorem equal_tokens_no_interaction_witness:
  "parse_stream_token ''s5'' = Inr \<lparr>topological = None, stream = 5\<rparr>
   \<and> get_room_events_stream_for_room live_store ''!R'' (Some ''s5'') ''s5'' 100 DESC
       = (Inr ([], Some ''s5''), [])"
  using equal_tokens_no_interaction [OF parse_stream_token_s5, of live_store "''!R''" 100 DESC]
  by (simp add: parse_stream_token_s5)

subsection \<open>The application service stream\<close>

lemma parse_stream_token_s0: "parse_stream_token ''s0'' = Inr \<lparr>topological = None, stream = 0\<rparr>"
  by code_simp

lemma parse_stream_token_s3: "parse_stream_token ''s3'' = Inr \<lparr>topological = None, stream = 3\<rparr>"
  by code_simp

lemma get_appservice_room_stream_eq:
  assumes "parse_stream_token from_key = Inr f" and "parse_stream_token to_key = Inr t"
    and "from_key \<noteq> to_key"
  shows "get_appservice_room_stream st service from_key to_key limit =
     (let rows = appservice_rows (events st) (stream f) (stream t) (appservice_limit limit)
      in (Inr (set_before_and_after
                 (get_events (events st)
                    (map event_id (filter (app_service_interested service) rows))) rows True,
               max_stream_key rows to_key),
          [RunInteraction ''get_appservice_room_stream'']))"
  using assms by (simp add: get_appservice_room_stream_def appservice_limit_def Let_def)

lemma max_stream_key_Max:
  "rows \<noteq> [] \<Longrightarrow> max_stream_key rows k = ''s'' @ show_int (Max (stream_ordering ` set rows))"
proof (cases rows)
  case (Cons r rs)
  have "fold max (map stream_ordering rs) (stream_ordering r)
      = Max (set (stream_ordering r # map stream_ordering rs))"
    by (simp only: Max.set_eq_fold)
  then show ?thesis using Cons by (simp add: max_stream_key_def)
qed simp

lemma appservice_token_general:
  assumes "parse_stream_token from_key = Inr f" and "parse_stream_token to_key = Inr t"
    and "from_key \<noteq> to_key"
    and "appservice_rows (events st) (stream f) (stream t) (appservice_limit limit) \<noteq> []"
  shows "returned_token (get_appservice_room_stream st service from_key to_key limit)
     = Inr (''s'' @ show_int (Max (stream_ordering `
         set (appservice_rows (events st) (stream f) (stream t) (appservice_limit limit)))))"
  using assms(4)
  by (simp add: get_appservice_room_stream_eq [OF assms(1-3)] returned_token_def Let_def
      max_stream_key_Max)

lemma appservice_scenario:
  assumes ids: "distinct (map event_id (events st))"
    and tbl: "mset (filter (\<lambda>r. 0 < stream_ordering r \<and> stream_ordering r \<le> 3) (events st))
                = mset [r1, r2, r3]"
    and so: "map stream_ordering [r1, r2, r3] = [1, 2, 3]"
    and int: "map (app_service_interested service) [r1, r2, r3] = [False, True, False]"
  shows "get_appservice_room_stream st service ''s0'' ''s3'' 0 =
           (Inr ([annotate (new_event r2) r1 True], ''s3''),
            [RunInteraction ''get_appservice_room_stream''])"
proof -
  have "sort_key stream_ordering
      (filter (\<lambda>r. 0 < stream_ordering r \<and> stream_ordering r \<le> 3) (events st)) = [r1, r2, r3]"
    using tbl by (rule sort_key_unique) (use so in simp_all)
  then have rows: "appservice_rows (events st) 0 3 (appservice_limit 0) = [r1, r2, r3]"
    by (simp add: appservice_rows_def appservice_limit_def MAX_STREAM_SIZE_def order_by_def
        sql_limit_def)
  have "set [r1, r2, r3] \<subseteq> set (events st)"
  proof -
    have "set [r1, r2, r3]
        = set (filter (\<lambda>r. 0 < stream_ordering r \<and> stream_ordering r \<le> 3) (events st))"
      using tbl by (metis mset_eq_setD)
    then show ?thesis by auto
  qed
  then have "set [r2] \<subseteq> set (events st)" by simp
  with ids have evs: "get_events (events st) (map event_id [r2]) = map new_event [r2]"
    by (rule get_events_of_rows)
  have key: "max_stream_key [r1, r2, r3] ''s3'' = ''s3''"
    using so by (simp add: max_stream_key_def show_int_digit digit_char_def decimal_digits_def)
  have neq: "''s0'' \<noteq> ''s3''" by simp
  show ?thesis
    using int evs
    by (simp add: get_appservice_room_stream_eq [OF parse_stream_token_s0 parse_stream_token_s3 neq]
        rows key)
qed

text \<open>
  C3 (amended). For every call of \<^verbatim>\<open>get_appservice_room_stream\<close> with valid and
  different tokens whose query selects at least one row, the next token is \<^verbatim>\<open>"s"\<close>
  followed by the greatest stream ordering among the rows selected, before the interest
  filter is applied. Concretely, when the rows between stream positions 0 and 3 are
  three rows with stream orderings 1, 2, 3 of which only the second interests the
  service, \<^verbatim>\<open>get_appservice_room_stream(svc, "s0", "s3", 0)\<close> returns the second event
  alone (annotated from the first row) and the next token \<^verbatim>\<open>"s3"\<close>.
\<close>

theorem appservice_next_token:
  "(parse_stream_token from_key = Inr f \<and> parse_stream_token to_key = Inr t
      \<and> from_key \<noteq> to_key
      \<and> appservice_rows (events st) (stream f) (stream t) (appservice_limit limit) \<noteq> []
    \<longrightarrow> returned_token (get_appservice_room_stream st service from_key to_key limit)
          = Inr (''s'' @ show_int (Max (stream_ordering `
              set (appservice_rows (events st) (stream f) (stream t) (appservice_limit limit))))))
   \<and> (distinct (map event_id (events st'))
      \<and> mset (filter (\<lambda>r. 0 < stream_ordering r \<and> stream_ordering r \<le> 3) (events st'))
            = mset [r1, r2, r3]
      \<and> map stream_ordering [r1, r2, r3] = [1, 2, 3]
      \<and> map (app_service_interested service') [r1, r2, r3] = [False, True, False]
    \<longrightarrow> get_appservice_room_stream st' service' ''s0'' ''s3'' 0 =
           (Inr ([annotate (new_event r2) r1 True], ''s3''),
            [RunInteraction ''get_appservice_room_stream'']))"
proof (intro conjI impI)
  assume h: "parse_stream_token from_key = Inr f \<and> parse_stream_token to_key = Inr t
      \<and> from_key \<noteq> to_key
      \<and> appservice_rows (events st) (stream f) (stream t) (appservice_limit limit) \<noteq> []"
  from h have h1: "parse_stream_token from_key = Inr f" by (rule conjunct1)
  from h have h2: "parse_stream_token to_key = Inr t" by (elim conjE)
  from h have h3: "from_key \<noteq> to_key" by (elim conjE)
  from h have h4: "appservice_rows (events st) (stream f) (stream t) (appservice_limit limit) \<noteq> []"
    by (elim conjE)
  show "returned_token (get_appservice_room_stream st service from_key to_key limit)
          = Inr (''s'' @ show_int (Max (stream_ordering `
              set (appservice_rows (events st) (stream f) (stream t) (appservice_limit limit)))))"
    using h1 h2 h3 h4 by (rule appservice_token_general)
next
  assume h: "distinct (map event_id (events st'))
      \<and> mset (filter (\<lambda>r. 0 < stream_ordering r \<and> stream_ordering r \<le> 3) (events st'))
            = mset [r1, r2, r3]
      \<and> map stream_ordering [r1, r2, r3] = [1, 2, 3]
      \<and> map (app_service_interested service') [r1, r2, r3] = [False, True, False]"
  from h have h1: "distinct (map event_id (events st'))" by (rule conjunct1)
  from h have h2: "mset (filter (\<lambda>r. 0 < stream_ordering r \<and> stream_ordering r \<le> 3) (events st'))
            = mset [r1, r2, r3]" by (elim conjE)
  from h have h3: "map stream_ordering [r1, r2, r3] = [1, 2, 3]" by (elim conjE)
  from h have h4: "map (app_service_interested service') [r1, r2, r3] = [False, True, False]"
    by (elim conjE)
  show "get_appservice_room_stream st' service' ''s0'' ''s3'' 0 =
           (Inr ([annotate (new_event r2) r1 True], ''s3''),
            [RunInteraction ''get_appservice_room_stream''])"
    using h1 h2 h3 h4 by (rule appservice_scenario)
qed

theorem appservice_next_token_witness:
  "returned_token (get_appservice_room_stream bridge_store bridge_service ''s0'' ''s3'' 0)
       = Inr (''s'' @ show_int (Max (stream_ordering ` set bridge_room)))
   \<and> Max (stream_ordering ` set bridge_room) = 3
   \<and> map_sum id (map (\<lambda>ev. (event_id (ev_row ev), before (internal ev), after (internal ev))))
         (returned_events (get_appservice_room_stream bridge_store bridge_service ''s0'' ''s3'' 0))
       = Inr [(''$e2'', Some ''t2-0'', Some ''t2-1'')]"
proof -
  have rows: "appservice_rows (events bridge_store) 0 3 (appservice_limit 0) = bridge_room"
    by (simp add: appservice_rows_def appservice_limit_def MAX_STREAM_SIZE_def order_by_def
        sql_limit_def bridge_store_def bridge_room_def message_row_def member_row_def)
  have g: "parse_stream_token ''s0'' = Inr \<lparr>topological = None, stream = 0\<rparr>
      \<and> parse_stream_token ''s3'' = Inr \<lparr>topological = None, stream = 3\<rparr>
      \<and> ''s0'' \<noteq> ''s3''
      \<and> appservice_rows (events bridge_store)
            (stream \<lparr>topological = None, stream = 0\<rparr>)
            (stream \<lparr>topological = None, stream = 3\<rparr>) (appservice_limit 0) \<noteq> []"
    by (simp add: parse_stream_token_s0 parse_stream_token_s3 rows bridge_room_def)
  have s: "distinct (map event_id (events bridge_store))
      \<and> mset (filter (\<lambda>r. 0 < stream_ordering r \<and> stream_ordering r \<le> 3) (events bridge_store))
            = mset [message_row ''$e1'' ''!R'' 1, member_row ''$e2'' ''!R'' ''@u:hs'' 2,
                    message_row ''$e3'' ''!R'' 3]
      \<and> map stream_ordering [message_row ''$e1'' ''!R'' 1, member_row ''$e2'' ''!R'' ''@u:hs'' 2,
                    message_row ''$e3'' ''!R'' 3] = [1, 2, 3]
      \<and> map (app_service_interested bridge_service)
            [message_row ''$e1'' ''!R'' 1, member_row ''$e2'' ''!R'' ''@u:hs'' 2,
             message_row ''$e3'' ''!R'' 3] = [False, True, False]"
    by (simp add: bridge_store_def bridge_room_def message_row_def member_row_def
        app_service_interested_def bridge_service_def)
  note T = appservice_next_token [of "''s0''" "\<lparr>topological = None, stream = 0\<rparr>" "''s3''"
      "\<lparr>topological = None, stream = 3\<rparr>" bridge_store 0 bridge_service bridge_store
      "message_row ''$e1'' ''!R'' 1" "member_row ''$e2'' ''!R'' ''@u:hs'' 2"
      "message_row ''$e3'' ''!R'' 3" bridge_service]
  have "returned_token (get_appservice_room_stream bridge_store bridge_service ''s0'' ''s3'' 0)
       = Inr (''s'' @ show_int (Max (stream_ordering `
           set (appservice_rows (events bridge_store)
                 (stream \<lparr>topological = None, stream = 0\<rparr>)
                 (stream \<lparr>topological = None, stream = 3\<rparr>) (appservice_limit 0)))))"
    by (rule T [THEN conjunct1, THEN mp, OF g])
  then have a: "returned_token (get_appservice_room_stream bridge_store bridge_service ''s0'' ''s3'' 0)
       = Inr (''s'' @ show_int (Max (stream_ordering ` set bridge_room)))"
    by (simp add: rows)
  have b: "get_appservice_room_stream bridge_store bridge_service ''s0'' ''s3'' 0 =
           (Inr ([annotate (new_event (member_row ''$e2'' ''!R'' ''@u:hs'' 2))
                    (message_row ''$e1'' ''!R'' 1) True], ''s3''),
            [RunInteraction ''get_appservice_room_stream''])"
    by (rule T [THEN conjunct2, THEN mp, OF s])
  have m: "Max (stream_ordering ` set bridge_room) = 3"
    by (simp add: bridge_room_def message_row_def member_row_def)
  have c: "map_sum id (map (\<lambda>ev. (event_id (ev_row ev), before (internal ev), after (internal ev))))
         (returned_events (get_appservice_room_stream bridge_store bridge_service ''s0'' ''s3'' 0))
       = Inr [(''$e2'', Some ''t2-0'', Some ''t2-1'')]"
    by (simp add: b returned_events_def annotate_def new_event_def member_row_def
        message_row_def str_token_def show_int_digit digit_char_def decimal_digits_def)
  from a m c show ?thesis by blast
qed

text \<open>
  C3 as stated fails: with a single surviving event of stream ordering 2 the next
  token is \<^verbatim>\<open>"s3"\<close>, the greatest stream ordering of the unfiltered rows.
\<close>

theorem appservice_next_token_counterexample:
  "map_sum id (map (event_id \<circ> ev_row))
       (returned_events (get_appservice_room_stream bridge_store bridge_service ''s0'' ''s3'' 0))
     = Inr [''$e2'']
   \<and> returned_token (get_appservice_room_stream bridge_store bridge_service ''s0'' ''s3'' 0)
     = Inr ''s3''
   \<and> returned_token (get_appservice_room_stream bridge_store bridge_service ''s0'' ''s3'' 0)
     \<noteq> Inr ''s2''"
  by code_simp

lemma distinct_map_sort_key:
  "distinct (map f xs) \<Longrightarrow> distinct (map f (sort_key g xs))"
proof -
  assume d: "distinct (map f xs)"
  have "mset (map f (sort_key g xs)) = mset (map f xs)" by simp
  then show ?thesis using d by (metis mset_eq_imp_distinct_iff)
qed

lemma distinct_map_sql_limit:
  "distinct (map f xs) \<Longrightarrow> distinct (map f (sql_limit n xs))"
  by (simp add: sql_limit_def take_map [symmetric] del: take_map)

lemma distinct_map_appservice_rows:
  "distinct (map f tbl) \<Longrightarrow> distinct (map f (appservice_rows tbl a b n))"
  unfolding appservice_rows_def order_by_def
  by (simp add: distinct_map_sql_limit distinct_map_sort_key distinct_map_filter)

lemma set_appservice_rows: "set (appservice_rows tbl a b n) \<subseteq> set tbl"
proof -
  have "set (appservice_rows tbl a b n)
      \<subseteq> set (order_by ASC stream_ordering
            (filter (\<lambda>r. stream_ordering r > a \<and> stream_ordering r \<le> b) tbl))"
    unfolding appservice_rows_def by (rule set_sql_limit)
  then show ?thesis by auto
qed

lemma filter_misaligned:
  "distinct (map f rows) \<Longrightarrow> j < k \<Longrightarrow> k < length rows \<Longrightarrow> \<not> P (rows ! j) \<Longrightarrow> P (rows ! k)
     \<Longrightarrow> \<exists>i < length (filter P rows). f (filter P rows ! i) \<noteq> f (rows ! i)"
proof (induction rows arbitrary: j k)
  case Nil
  then show ?case by simp
next
  case (Cons a rest)
  from Cons.prems(2) obtain k' where k: "k = Suc k'" by (cases k) auto
  show ?case
  proof (cases "P a")
    case True
    with Cons.prems(4) obtain j' where j: "j = Suc j'" by (cases j) auto
    from Cons.prems j k have "distinct (map f rest)" "j' < k'" "k' < length rest"
      "\<not> P (rest ! j')" "P (rest ! k')" by simp_all
    then obtain i where "i < length (filter P rest)" "f (filter P rest ! i) \<noteq> f (rest ! i)"
      using Cons.IH by blast
    with True have "Suc i < length (filter P (a # rest))
        \<and> f (filter P (a # rest) ! Suc i) \<noteq> f ((a # rest) ! Suc i)" by simp
    then show ?thesis by blast
  next
    case False
    from Cons.prems k have kin: "rest ! k' \<in> set rest" "P (rest ! k')" by simp_all
    then have ne: "filter P rest \<noteq> []" by (auto simp: filter_empty_conv)
    then have "0 < length (filter P rest)" by simp
    then have "filter P rest ! 0 \<in> set (filter P rest)" by (rule nth_mem)
    then have "filter P rest ! 0 \<in> set rest" by simp
    moreover from Cons.prems(1) have "f a \<notin> f ` set rest" by simp
    ultimately have "f (filter P rest ! 0) \<noteq> f a" by (metis image_eqI)
    with False ne show ?thesis by auto
  qed
qed

lemma annotate_cursors:
  "before (internal (annotate ev r topo_order))
     = Some (str_token \<lparr>topological = (if topo_order then Some (depth (ev_row ev)) else None),
                        stream = stream_ordering r - 1\<rparr>)"
  "after (internal (annotate ev r topo_order))
     = Some (str_token \<lparr>topological = (if topo_order then Some (depth (ev_row ev)) else None),
                        stream = stream_ordering r\<rparr>)"
  "order (internal (annotate ev r topo_order))
     = Some (if topo_order then depth (ev_row ev) else 0, stream_ordering r)"
  by (simp_all add: annotate_def Let_def)

text \<open>
  C9. In \<^verbatim>\<open>get_appservice_room_stream\<close> (valid and different tokens, distinct event
  ids) the annotations are attached by position: the returned events are those of the
  rows that survive the interest filter, in order, and the \<open>i\<close>-th of them carries the
  cursors and the order built from the stream ordering of the \<open>i\<close>-th row of the
  unfiltered result. Hence, stream orderings being distinct, whenever the filter removes
  a row that precedes a surviving row, some returned event carries cursors computed from
  the stream ordering of another event: its \<open>before\<close> and \<open>after\<close> differ from the
  cursors of its own stream ordering.
\<close>

theorem appservice_annotations_positional:
  assumes pf: "parse_stream_token from_key = Inr f"
    and pt: "parse_stream_token to_key = Inr t"
    and ne: "from_key \<noteq> to_key"
    and ids: "distinct (map event_id (events st))"
    and rows: "rows = appservice_rows (events st) (stream f) (stream t) (appservice_limit limit)"
    and surv: "surviving = filter (app_service_interested service) rows"
  shows "\<exists>evs. returned_events (get_appservice_room_stream st service from_key to_key limit) = Inr evs
     \<and> length evs = length surviving
     \<and> (\<forall>i < length evs.
          ev_row (evs ! i) = surviving ! i
          \<and> before (internal (evs ! i))
              = Some (str_token \<lparr>topological = Some (depth (surviving ! i)),
                                 stream = stream_ordering (rows ! i) - 1\<rparr>)
          \<and> after (internal (evs ! i))
              = Some (str_token \<lparr>topological = Some (depth (surviving ! i)),
                                 stream = stream_ordering (rows ! i)\<rparr>)
          \<and> order (internal (evs ! i))
              = Some (depth (surviving ! i), stream_ordering (rows ! i)))
     \<and> (distinct (map stream_ordering (events st))
          \<and> (\<exists>j k. j < k \<and> k < length rows
                \<and> \<not> app_service_interested service (rows ! j)
                \<and> app_service_interested service (rows ! k))
        \<longrightarrow> (\<exists>i < length evs.
               stream_ordering (rows ! i) \<noteq> stream_ordering (ev_row (evs ! i))
               \<and> event_id (rows ! i) \<noteq> event_id (ev_row (evs ! i))
               \<and> before (internal (evs ! i))
                   \<noteq> Some (str_token \<lparr>topological = Some (depth (ev_row (evs ! i))),
                                      stream = stream_ordering (ev_row (evs ! i)) - 1\<rparr>)
               \<and> after (internal (evs ! i))
                   \<noteq> Some (str_token \<lparr>topological = Some (depth (ev_row (evs ! i))),
                                      stream = stream_ordering (ev_row (evs ! i))\<rparr>)))"
proof -
  let ?P = "app_service_interested service"
  define evs where "evs = set_before_and_after (map new_event surviving) rows True"
  have sub: "set rows \<subseteq> set (events st)"
    unfolding rows by (rule set_appservice_rows)
  then have "set surviving \<subseteq> set (events st)"
    unfolding surv by auto
  with ids have "get_events (events st) (map event_id surviving) = map new_event surviving"
    by (rule get_events_of_rows)
  then have res: "returned_events (get_appservice_room_stream st service from_key to_key limit)
      = Inr evs"
    by (simp add: get_appservice_room_stream_eq [OF pf pt ne] returned_events_def evs_def
        rows [symmetric] surv [symmetric] Let_def)
  have len: "length evs = length surviving" by (simp add: evs_def)
  have le: "length surviving \<le> length rows" unfolding surv by (rule length_filter_le)
  have nth: "evs ! i = annotate (new_event (surviving ! i)) (rows ! i) True"
    if "i < length surviving" for i
    using that le by (simp add: evs_def nth_set_before_and_after)
  have pos: "\<forall>i < length evs.
          ev_row (evs ! i) = surviving ! i
          \<and> before (internal (evs ! i))
              = Some (str_token \<lparr>topological = Some (depth (surviving ! i)),
                                 stream = stream_ordering (rows ! i) - 1\<rparr>)
          \<and> after (internal (evs ! i))
              = Some (str_token \<lparr>topological = Some (depth (surviving ! i)),
                                 stream = stream_ordering (rows ! i)\<rparr>)
          \<and> order (internal (evs ! i))
              = Some (depth (surviving ! i), stream_ordering (rows ! i))"
    by (simp add: len nth annotate_cursors)
  have mis: "\<exists>i < length evs.
               stream_ordering (rows ! i) \<noteq> stream_ordering (ev_row (evs ! i))
               \<and> event_id (rows ! i) \<noteq> event_id (ev_row (evs ! i))
               \<and> before (internal (evs ! i))
                   \<noteq> Some (str_token \<lparr>topological = Some (depth (ev_row (evs ! i))),
                                      stream = stream_ordering (ev_row (evs ! i)) - 1\<rparr>)
               \<and> after (internal (evs ! i))
                   \<noteq> Some (str_token \<lparr>topological = Some (depth (ev_row (evs ! i))),
                                      stream = stream_ordering (ev_row (evs ! i))\<rparr>)"
    if d: "distinct (map stream_ordering (events st))"
      and jk: "\<exists>j k. j < k \<and> k < length rows \<and> \<not> ?P (rows ! j) \<and> ?P (rows ! k)"
  proof -
    from d have "distinct (map stream_ordering rows)"
      unfolding rows by (rule distinct_map_appservice_rows)
    with jk obtain i where i: "i < length (filter ?P rows)"
      and diff: "stream_ordering (filter ?P rows ! i) \<noteq> stream_ordering (rows ! i)"
      using filter_misaligned [of stream_ordering rows _ _ ?P] by blast
    from i have i': "i < length surviving" by (simp add: surv)
    from diff have diff': "stream_ordering (surviving ! i) \<noteq> stream_ordering (rows ! i)"
      by (simp add: surv)
    have "event_id (surviving ! i) \<noteq> event_id (rows ! i)"
    proof
      assume e: "event_id (surviving ! i) = event_id (rows ! i)"
      have "inj_on event_id (set (events st))" using ids by (simp add: distinct_map)
      moreover have "surviving ! i \<in> set (events st)"
        using i' \<open>set surviving \<subseteq> set (events st)\<close> nth_mem by blast
      moreover have "rows ! i \<in> set (events st)"
        using i' le sub nth_mem [of i rows] by auto
      ultimately have "surviving ! i = rows ! i" using e by (metis inj_onD)
      with diff' show False by simp
    qed
    with i' diff' have "i < length evs
        \<and> stream_ordering (rows ! i) \<noteq> stream_ordering (ev_row (evs ! i))
        \<and> event_id (rows ! i) \<noteq> event_id (ev_row (evs ! i))
        \<and> before (internal (evs ! i))
             \<noteq> Some (str_token \<lparr>topological = Some (depth (ev_row (evs ! i))),
                                stream = stream_ordering (ev_row (evs ! i)) - 1\<rparr>)
        \<and> after (internal (evs ! i))
             \<noteq> Some (str_token \<lparr>topological = Some (depth (ev_row (evs ! i))),
                                stream = stream_ordering (ev_row (evs ! i))\<rparr>)"
      by (simp add: len nth annotate_cursors str_token_inject)
    then show ?thesis by blast
  qed
  from res len pos mis show ?thesis by blast
qed


theorem appservice_annotations_positional_witness:
  "parse_stream_token ''s0'' = Inr \<lparr>topological = None, stream = 0\<rparr>
   \<and> parse_stream_token ''s3'' = Inr \<lparr>topological = None, stream = 3\<rparr>
   \<and> ''s0'' \<noteq> ''s3''
   \<and> distinct (map event_id (events bridge_store))
   \<and> distinct (map stream_ordering (events bridge_store))
   \<and> appservice_rows (events bridge_store) 0 3 (appservice_limit 0) = bridge_room
   \<and> filter (app_service_interested bridge_service) bridge_room
       = [member_row ''$e2'' ''!R'' ''@u:hs'' 2]
   \<and> \<not> app_service_interested bridge_service (bridge_room ! 0)
   \<and> app_service_interested bridge_service (bridge_room ! 1)
   \<and> (\<exists>evs. returned_events
                (get_appservice_room_stream bridge_store bridge_service ''s0'' ''s3'' 0) = Inr evs
          \<and> length evs = 1
          \<and> (\<exists>i < length evs.
                stream_ordering (bridge_room ! i) \<noteq> stream_ordering (ev_row (evs ! i))
                \<and> event_id (bridge_room ! i) \<noteq> event_id (ev_row (evs ! i))
                \<and> before (internal (evs ! i))
                    \<noteq> Some (str_token \<lparr>topological = Some (depth (ev_row (evs ! i))),
                                       stream = stream_ordering (ev_row (evs ! i)) - 1\<rparr>)
                \<and> after (internal (evs ! i))
                    \<noteq> Some (str_token \<lparr>topological = Some (depth (ev_row (evs ! i))),
                                       stream = stream_ordering (ev_row (evs ! i))\<rparr>)))"
proof -
  have ids: "distinct (map event_id (events bridge_store))"
    by (simp add: bridge_store_def bridge_room_def message_row_def member_row_def)
  have sos: "distinct (map stream_ordering (events bridge_store))"
    by (simp add: bridge_store_def bridge_room_def message_row_def member_row_def)
  have rows0: "appservice_rows (events bridge_store) 0 3 (appservice_limit 0) = bridge_room"
    by (simp add: appservice_rows_def appservice_limit_def MAX_STREAM_SIZE_def order_by_def
        sql_limit_def bridge_store_def bridge_room_def message_row_def member_row_def)
  then have rows: "bridge_room = appservice_rows (events bridge_store)
      (stream \<lparr>topological = None, stream = 0\<rparr>)
      (stream \<lparr>topological = None, stream = 3\<rparr>) (appservice_limit 0)"
    by simp
  have surv0: "filter (app_service_interested bridge_service) bridge_room
       = [member_row ''$e2'' ''!R'' ''@u:hs'' 2]"
    by (simp add: bridge_room_def message_row_def member_row_def app_service_interested_def
        bridge_service_def)
  then have surv: "[member_row ''$e2'' ''!R'' ''@u:hs'' 2]
      = filter (app_service_interested bridge_service) bridge_room"
    by simp
  have n0: "\<not> app_service_interested bridge_service (bridge_room ! 0)"
    by (simp add: bridge_room_def message_row_def app_service_interested_def bridge_service_def)
  have y1: "app_service_interested bridge_service (bridge_room ! 1)"
    by (simp add: bridge_room_def member_row_def app_service_interested_def bridge_service_def)
  have neq: "''s0'' \<noteq> ''s3''" by simp
  have prem: "distinct (map stream_ordering (events bridge_store))
      \<and> (\<exists>j k. j < k \<and> k < length bridge_room
            \<and> \<not> app_service_interested bridge_service (bridge_room ! j)
            \<and> app_service_interested bridge_service (bridge_room ! k))"
  proof
    show "distinct (map stream_ordering (events bridge_store))" by (rule sos)
    have "1 < length bridge_room" by (simp add: bridge_room_def)
    with n0 y1 have "(0::nat) < 1 \<and> 1 < length bridge_room
        \<and> \<not> app_service_interested bridge_service (bridge_room ! 0)
        \<and> app_service_interested bridge_service (bridge_room ! 1)"
      by simp
    then show "\<exists>j k. j < k \<and> k < length bridge_room
            \<and> \<not> app_service_interested bridge_service (bridge_room ! j)
            \<and> app_service_interested bridge_service (bridge_room ! k)"
      by blast
  qed
  from appservice_annotations_positional
         [OF parse_stream_token_s0 parse_stream_token_s3 neq ids rows surv]
  obtain evs where r: "returned_events
        (get_appservice_room_stream bridge_store bridge_service ''s0'' ''s3'' 0) = Inr evs"
    and l: "length evs = length [member_row ''$e2'' ''!R'' ''@u:hs'' 2]"
    and imp: "distinct (map stream_ordering (events bridge_store))
          \<and> (\<exists>j k. j < k \<and> k < length bridge_room
                \<and> \<not> app_service_interested bridge_service (bridge_room ! j)
                \<and> app_service_interested bridge_service (bridge_room ! k))
        \<longrightarrow> (\<exists>i < length evs.
               stream_ordering (bridge_room ! i) \<noteq> stream_ordering (ev_row (evs ! i))
               \<and> event_id (bridge_room ! i) \<noteq> event_id (ev_row (evs ! i))
               \<and> before (internal (evs ! i))
                   \<noteq> Some (str_token \<lparr>topological = Some (depth (ev_row (evs ! i))),
                                      stream = stream_ordering (ev_row (evs ! i)) - 1\<rparr>)
               \<and> after (internal (evs ! i))
                   \<noteq> Some (str_token \<lparr>topological = Some (depth (ev_row (evs ! i))),
                                      stream = stream_ordering (ev_row (evs ! i))\<rparr>))"
    by blast
  from imp prem have ex: "\<exists>i < length evs.
               stream_ordering (bridge_room ! i) \<noteq> stream_ordering (ev_row (evs ! i))
               \<and> event_id (bridge_room ! i) \<noteq> event_id (ev_row (evs ! i))
               \<and> before (internal (evs ! i))
                   \<noteq> Some (str_token \<lparr>topological = Some (depth (ev_row (evs ! i))),
                                      stream = stream_ordering (ev_row (evs ! i)) - 1\<rparr>)
               \<and> after (internal (evs ! i))
                   \<noteq> Some (str_token \<lparr>topological = Some (depth (ev_row (evs ! i))),
                                      stream = stream_ordering (ev_row (evs ! i))\<rparr>)"
    by (rule mp)
  from l have l1: "length evs = 1" by simp
  from r l1 ex have "\<exists>evs. returned_events
                (get_appservice_room_stream bridge_store bridge_service ''s0'' ''s3'' 0) = Inr evs
          \<and> length evs = 1
          \<and> (\<exists>i < length evs.
                stream_ordering (bridge_room ! i) \<noteq> stream_ordering (ev_row (evs ! i))
                \<and> event_id (bridge_room ! i) \<noteq> event_id (ev_row (evs ! i))
                \<and> before (internal (evs ! i))
                    \<noteq> Some (str_token \<lparr>topological = Some (depth (ev_row (evs ! i))),
                                       stream = stream_ordering (ev_row (evs ! i)) - 1\<rparr>)
                \<and> after (internal (evs ! i))
                    \<noteq> Some (str_token \<lparr>topological = Some (depth (ev_row (evs ! i))),
                                       stream = stream_ordering (ev_row (evs ! i))\<rparr>))"
    by blast
  with parse_stream_token_s0 parse_stream_token_s3 neq ids sos rows0 surv0 n0 y1
  show ?thesis by (intro conjI)
qed

subsection \<open>Cursors of adjacent events\<close>

lemma adjacent_cursors:
  assumes "Suc i < length evs" and "Suc i < length rows"
  shows "(after (internal (set_before_and_after evs rows topo_order ! i))
            = before (internal (set_before_and_after evs rows topo_order ! Suc i)))
         \<longleftrightarrow> ((if topo_order then depth (ev_row (evs ! i)) = depth (ev_row (evs ! Suc i)) else True)
              \<and> stream_ordering (rows ! Suc i) = stream_ordering (rows ! i) + 1)"
proof -
  from assms have "i < length evs" "i < length rows" by simp_all
  with assms show ?thesis
    by (auto simp: nth_set_before_and_after annotate_cursors str_token_inject)
qed

text \<open>
  C7 (amended). For every batch annotated by \<^verbatim>\<open>_set_before_and_after\<close> and every pair
  of adjacent positions \<open>i\<close>, \<open>i + 1\<close> that are annotated, the \<open>after\<close> cursor of
  event \<open>i\<close> equals the \<open>before\<close> cursor of event \<open>i + 1\<close> exactly when the stream
  orderings of their two rows are consecutive and, under \<^verbatim>\<open>topo_order\<close>, the two events
  have the same depth.
\<close>

theorem adjacent_cursors_compose_iff:
  assumes "Suc i < length evs" and "Suc i < length rows"
  shows "(after (internal (set_before_and_after evs rows topo_order ! i))
            = before (internal (set_before_and_after evs rows topo_order ! Suc i)))
         \<longleftrightarrow> ((topo_order \<longrightarrow> depth (ev_row (evs ! i)) = depth (ev_row (evs ! Suc i)))
              \<and> stream_ordering (rows ! Suc i) = stream_ordering (rows ! i) + 1)"
  using adjacent_cursors [OF assms, of topo_order] by simp

theorem adjacent_cursors_compose_iff_witness:
  "Suc 0 < length (map new_event live_room) \<and> Suc 0 < length live_room
   \<and> stream_ordering (live_room ! Suc 0) = stream_ordering (live_room ! 0) + 1
   \<and> after (internal (set_before_and_after (map new_event live_room) live_room False ! 0))
       = before (internal (set_before_and_after (map new_event live_room) live_room False ! Suc 0))
   \<and> depth (ev_row (map new_event live_room ! 0)) \<noteq> depth (ev_row (map new_event live_room ! Suc 0))
   \<and> after (internal (set_before_and_after (map new_event live_room) live_room True ! 0))
       \<noteq> before (internal (set_before_and_after (map new_event live_room) live_room True ! Suc 0))"
proof -
  have l1: "Suc 0 < length (map new_event live_room)" by (simp add: live_room_def)
  have l2: "Suc 0 < length live_room" by (simp add: live_room_def)
  have s: "stream_ordering (live_room ! Suc 0) = stream_ordering (live_room ! 0) + 1"
    by (simp add: live_room_def message_row_def)
  have d: "depth (ev_row (map new_event live_room ! 0))
      \<noteq> depth (ev_row (map new_event live_room ! Suc 0))"
    by (simp add: live_room_def message_row_def)
  from adjacent_cursors_compose_iff [OF l1 l2, of False] s
  have a: "after (internal (set_before_and_after (map new_event live_room) live_room False ! 0))
       = before (internal (set_before_and_after (map new_event live_room) live_room False ! Suc 0))"
    by simp
  from adjacent_cursors_compose_iff [OF l1 l2, of True] d
  have b: "after (internal (set_before_and_after (map new_event live_room) live_room True ! 0))
       \<noteq> before (internal (set_before_and_after (map new_event live_room) live_room True ! Suc 0))"
    by simp
  from l1 l2 s a d b show ?thesis by (intro conjI)
qed

text \<open>
  C7 as stated fails: forward pagination of the five-event room returns two adjacent
  events of the same room and chunk with \<open>after = "t1-1"\<close> and \<open>before = "t2-1"\<close>.
\<close>

theorem adjacent_cursors_counterexample:
  "after (internal (batch (paginate_room_events live_store ''!R'' ''t0-0'' None ''f'' 2) ! 0))
     = Some ''t1-1''
   \<and> before (internal (batch (paginate_room_events live_store ''!R'' ''t0-0'' None ''f'' 2) ! 1))
     = Some ''t2-1''
   \<and> after (internal (batch (paginate_room_events live_store ''!R'' ''t0-0'' None ''f'' 2) ! 0))
     \<noteq> before (internal (batch (paginate_room_events live_store ''!R'' ''t0-0'' None ''f'' 2) ! 1))"
  by code_simp

subsection \<open>The rows behind the returned events\<close>

lemma loaded_rows:
  assumes "distinct (map event_id tbl)" and "set rows \<subseteq> set tbl"
  shows "map ev_row (get_events tbl (map event_id rows)) = rows"
  using assms by (simp add: get_events_of_rows comp_def)

lemma set_room_stream_rows:
  "set (room_stream_rows tbl room from_id to_id limit ord)
     \<subseteq> {r \<in> set tbl. room_id r = room \<and> \<not> outlier r}"
proof (cases from_id)
  case None
  then show ?thesis
    using set_sql_limit [of limit "order_by ord composite
      (filter (\<lambda>r. room_id r = room \<and> \<not> outlier r \<and> stream_ordering r \<le> to_id) tbl)"]
    by (auto simp: room_stream_rows_def)
next
  case (Some f)
  then show ?thesis
    using set_sql_limit [of limit "order_by ord stream_ordering
      (filter (\<lambda>r. room_id r = room \<and> \<not> outlier r
                  \<and> stream_ordering r > f \<and> stream_ordering r \<le> to_id) tbl)"]
    by (auto simp: room_stream_rows_def)
qed

lemma sorted_by_order:
  "sorted (map key (case ord of ASC \<Rightarrow> sql_limit n (order_by ord key rows)
                             | DESC \<Rightarrow> rev (sql_limit n (order_by ord key rows))))"
proof (cases ord)
  case ASC
  then show ?thesis by (simp add: sorted_sql_limit sorted_order_by_ASC)
next
  case DESC
  have "sorted (rev (map key (sql_limit n (order_by DESC key rows))))"
    by (rule sorted_rev_sql_limit) (rule sorted_order_by_DESC)
  with DESC show ?thesis by (simp add: rev_map)
qed

lemma room_stream_rows_sorted_stream:
  "sorted (map stream_ordering
     (case ord of ASC \<Rightarrow> room_stream_rows tbl room (Some f) to_id limit ord
                | DESC \<Rightarrow> rev (room_stream_rows tbl room (Some f) to_id limit ord)))"
  unfolding room_stream_rows_def option.case by (rule sorted_by_order)

lemma room_stream_rows_sorted_composite:
  "sorted (map composite
     (case ord of ASC \<Rightarrow> room_stream_rows tbl room None to_id limit ord
                | DESC \<Rightarrow> rev (room_stream_rows tbl room None to_id limit ord)))"
  unfolding room_stream_rows_def option.case by (rule sorted_by_order)

lemma stream_for_room_result:
  assumes res: "returned_events (get_room_events_stream_for_room st room from_key to_key limit ord)
                = Inr evs"
  shows "evs = [] \<or>
         (\<exists>from_id to_id. (from_id = None \<longleftrightarrow> from_key = None)
            \<and> evs = (let rows = room_stream_rows (events st) room from_id to_id limit ord;
                         ret = set_before_and_after
                                 (get_events (events st) (map event_id rows)) rows (from_id = None)
                     in if ord = DESC then rev ret else ret))"
proof (cases from_key)
  case None
  with res obtain t where "parse_stream_token to_key = Inr t"
    by (auto simp: get_room_events_stream_for_room_def returned_events_def split: sum.splits)
  with res None have "evs = (let rows = room_stream_rows (events st) room None (stream t) limit ord;
                         ret = set_before_and_after
                                 (get_events (events st) (map event_id rows)) rows (None = None)
                     in if ord = DESC then rev ret else ret)"
    by (simp add: get_room_events_stream_for_room_def returned_events_def Let_def)
  with None show ?thesis by blast
next
  case (Some k)
  with res obtain f t where p: "parse_stream_token k = Inr f" "parse_stream_token to_key = Inr t"
    by (auto simp: get_room_events_stream_for_room_def returned_events_def split: sum.splits)
  show ?thesis
  proof (cases "evs = []")
    case True
    then show ?thesis by simp
  next
    case False
    with res Some p
    have "evs = (let rows = room_stream_rows (events st) room (Some (stream f)) (stream t) limit ord;
                         ret = set_before_and_after
                                 (get_events (events st) (map event_id rows)) rows
                                 (Some (stream f) = None)
                     in if ord = DESC then rev ret else ret)"
      by (simp add: get_room_events_stream_for_room_def returned_events_def Let_def
          split: if_splits)
    with Some show ?thesis by blast
  qed
qed

lemma stream_for_room_loaded:
  assumes ids: "distinct (map event_id (events st))"
    and res: "returned_events (get_room_events_stream_for_room st room from_key to_key limit ord)
                = Inr evs"
  shows "evs = [] \<or>
         (\<exists>from_id to_id. (from_id = None \<longleftrightarrow> from_key = None)
            \<and> map ev_row evs =
                (case ord of ASC \<Rightarrow> room_stream_rows (events st) room from_id to_id limit ord
                           | DESC \<Rightarrow> rev (room_stream_rows (events st) room from_id to_id limit ord)))"
proof -
  have ld: "map ev_row (get_events (events st)
           (map event_id (room_stream_rows (events st) room from_id to_id limit ord')))
      = room_stream_rows (events st) room from_id to_id limit ord'" for from_id to_id ord'
    using ids by (rule loaded_rows) (use set_room_stream_rows in blast)
  from stream_for_room_result [OF res] show ?thesis
  proof
    assume "evs = []"
    then show ?thesis by simp
  next
    assume "\<exists>from_id to_id. (from_id = None \<longleftrightarrow> from_key = None)
            \<and> evs = (let rows = room_stream_rows (events st) room from_id to_id limit ord;
                         ret = set_before_and_after
                                 (get_events (events st) (map event_id rows)) rows (from_id = None)
                     in if ord = DESC then rev ret else ret)"
    then obtain from_id to_id where n: "from_id = None \<longleftrightarrow> from_key = None"
      and e: "evs = (let rows = room_stream_rows (events st) room from_id to_id limit ord;
                         ret = set_before_and_after
                                 (get_events (events st) (map event_id rows)) rows (from_id = None)
                     in if ord = DESC then rev ret else ret)"
      by blast
    have "map ev_row evs =
                (case ord of ASC \<Rightarrow> room_stream_rows (events st) room from_id to_id limit ord
                           | DESC \<Rightarrow> rev (room_stream_rows (events st) room from_id to_id limit ord))"
      unfolding e by (cases ord) (simp_all add: Let_def ld rev_map [symmetric])
    with n show ?thesis by blast
  qed
qed

lemma paginate_bounds_order:
  "paginate_bounds from_key to_key direction = Inr (ord, bounds)
     \<Longrightarrow> ord = (if direction = ''b'' then DESC else ASC)"
  by (auto simp: paginate_bounds_def split: sum.splits option.splits if_splits)

lemma set_paginate_rows:
  "set (paginate_rows tbl room ord bounds limit)
     \<subseteq> {r \<in> set tbl. room_id r = room \<and> \<not> outlier r}"
  using set_sql_limit [of limit "order_by ord composite
      (filter (\<lambda>r. outlier r = False \<and> room_id r = room \<and> holds bounds r) tbl)"]
  by (auto simp: paginate_rows_def Let_def)

lemma paginate_rows_sorted:
  "sorted (map composite (case ord of ASC \<Rightarrow> paginate_rows tbl room ord bounds limit
                                    | DESC \<Rightarrow> rev (paginate_rows tbl room ord bounds limit)))"
proof (cases "limit > 0")
  case True
  then show ?thesis
    unfolding paginate_rows_def Let_def by (simp only: if_True) (rule sorted_by_order)
next
  case False
  then have "paginate_rows tbl room ord bounds limit = order_by ord composite
            (filter (\<lambda>r. outlier r = False \<and> room_id r = room \<and> holds bounds r) tbl)"
    by (simp add: paginate_rows_def Let_def)
  then show ?thesis by (cases ord) (simp_all add: order_by_def)
qed

lemma paginate_loaded:
  assumes ids: "distinct (map event_id (events st))"
    and res: "returned_events (paginate_room_events st room from_key to_key direction limit)
                = Inr evs"
  shows "\<exists>bounds. map ev_row evs
           = paginate_rows (events st) room (if direction = ''b'' then DESC else ASC) bounds limit"
proof -
  from res obtain ord bounds where b: "paginate_bounds from_key to_key direction = Inr (ord, bounds)"
    by (auto simp: paginate_room_events_def returned_events_def split: sum.splits)
  then have ord: "ord = (if direction = ''b'' then DESC else ASC)" by (rule paginate_bounds_order)
  have "map ev_row (get_events (events st)
           (map event_id (paginate_rows (events st) room ord bounds limit)))
      = paginate_rows (events st) room ord bounds limit"
    using ids by (rule loaded_rows) (use set_paginate_rows in blast)
  with res b have "map ev_row evs = paginate_rows (events st) room ord bounds limit"
    by (auto simp: paginate_room_events_def returned_events_def Let_def)
  with ord show ?thesis by blast
qed

lemma set_recent_rows:
  "set (recent_rows tbl room limit end_id from_id)
     \<subseteq> {r \<in> set tbl. room_id r = room \<and> \<not> outlier r}"
  using set_sql_limit [of limit "order_by DESC composite
       (filter (\<lambda>r. room_id r = room
                   \<and> (case from_id of None \<Rightarrow> True | Some f \<Rightarrow> stream_ordering r > f)
                   \<and> stream_ordering r \<le> end_id \<and> outlier r = False) tbl)"]
  by (auto simp: recent_rows_def)

lemma recent_rows_sorted: "sorted (map composite (recent_rows tbl room limit end_id from_id))"
proof -
  have "sorted (rev (map composite (sql_limit limit (order_by DESC composite
       (filter (\<lambda>r. room_id r = room
                   \<and> (case from_id of None \<Rightarrow> True | Some f \<Rightarrow> stream_ordering r > f)
                   \<and> stream_ordering r \<le> end_id \<and> outlier r = False) tbl)))))"
    by (rule sorted_rev_sql_limit) (rule sorted_order_by_DESC)
  then show ?thesis by (simp add: recent_rows_def rev_map)
qed

lemma recent_loaded:
  assumes ids: "distinct (map event_id (events st))"
    and res: "returned_events (get_recent_events_for_room st room limit end_key from_token)
                = Inr evs"
  shows "\<exists>end_id from_id. map ev_row evs = recent_rows (events st) room limit end_id from_id"
proof -
  have ld: "map ev_row (get_events (events st)
           (map event_id (recent_rows (events st) room limit end_id from_id)))
      = recent_rows (events st) room limit end_id from_id" for end_id from_id
    using ids by (rule loaded_rows) (use set_recent_rows in blast)
  from res obtain rows token tr where
    r: "get_recent_event_ids_for_room st room limit end_key from_token = (Inr (rows, token), tr)"
    by (auto simp: get_recent_events_for_room_def returned_events_def
        split: sum.splits prod.splits)
  then obtain end_id from_id where rows: "rows = recent_rows (events st) room limit end_id from_id"
    by (auto simp: get_recent_event_ids_for_room_def Let_def split: sum.splits option.splits)
  from res r have "map ev_row evs = map ev_row (get_events (events st) (map event_id rows))"
    by (auto simp: get_recent_events_for_room_def returned_events_def Let_def)
  with rows ld show ?thesis by auto
qed

lemma appservice_loaded:
  assumes ids: "distinct (map event_id (events st))"
    and res: "returned_events (get_appservice_room_stream st service from_key to_key limit)
                = Inr evs"
  shows "evs = [] \<or> (\<exists>from_id to_id.
           map ev_row evs = filter (app_service_interested service)
             (appservice_rows (events st) from_id to_id (appservice_limit limit)))"
proof -
  have ld: "map ev_row (get_events (events st)
           (map event_id (filter (app_service_interested service)
              (appservice_rows (events st) from_id to_id n))))
      = filter (app_service_interested service) (appservice_rows (events st) from_id to_id n)"
    for from_id to_id n
    using ids by (rule loaded_rows) (use set_appservice_rows in fastforce)
  from res obtain f t where p: "parse_stream_token from_key = Inr f"
      "parse_stream_token to_key = Inr t"
    by (auto simp: get_appservice_room_stream_def returned_events_def Let_def split: sum.splits)
  show ?thesis
  proof (cases "from_key = to_key")
    case True
    with res p show ?thesis
      by (simp add: get_appservice_room_stream_def returned_events_def Let_def)
  next
    case False
    from res have "map ev_row evs = filter (app_service_interested service)
             (appservice_rows (events st) (stream f) (stream t) (appservice_limit limit))"
      by (auto simp: get_appservice_room_stream_eq [OF p False] returned_events_def Let_def ld)
    then show ?thesis by blast
  qed
qed

lemma appservice_rows_sorted: "sorted (map stream_ordering (appservice_rows tbl a b n))"
  unfolding appservice_rows_def by (rule sorted_sql_limit) (rule sorted_order_by_ASC)

lemma appservice_survivors_sorted:
  "sorted (map stream_ordering (filter P (appservice_rows tbl a b n)))"
  by (rule sorted_filter) (rule appservice_rows_sorted)

lemma returned_event_order_cases:
  assumes ids: "distinct (map event_id (events st))"
  shows "(returned_events (get_room_events_stream_for_room st room None to_key limit ord) = Inr evs
            \<longrightarrow> sorted (map (composite \<circ> ev_row) evs))
       \<and> (returned_events (get_room_events_stream_for_room st room (Some from_key) to_key limit ord)
              = Inr evs
            \<longrightarrow> sorted (map (stream_ordering \<circ> ev_row) evs))
       \<and> (returned_events (get_recent_events_for_room st room limit to_key from_token) = Inr evs
            \<longrightarrow> sorted (map (composite \<circ> ev_row) evs))
       \<and> (returned_events (get_appservice_room_stream st service from_key to_key limit) = Inr evs
            \<longrightarrow> sorted (map (stream_ordering \<circ> ev_row) evs))
       \<and> (direction \<noteq> ''b''
            \<and> returned_events (paginate_room_events st room from_key to_token direction limit)
                = Inr evs
            \<longrightarrow> sorted (map (composite \<circ> ev_row) evs))
       \<and> (returned_events (paginate_room_events st room from_key to_token ''b'' limit) = Inr evs
            \<longrightarrow> sorted (rev (map (composite \<circ> ev_row) evs)))"
proof (intro conjI impI)
  assume "returned_events (get_room_events_stream_for_room st room None to_key limit ord) = Inr evs"
  from stream_for_room_loaded [OF ids this]
  show "sorted (map (composite \<circ> ev_row) evs)"
    using room_stream_rows_sorted_composite [where ord = ord and tbl = "events st" and room = room and limit = limit]
    by (auto simp: map_map [symmetric] simp del: map_map)
next
  assume "returned_events (get_room_events_stream_for_room st room (Some from_key) to_key limit ord)
      = Inr evs"
  from stream_for_room_loaded [OF ids this]
  show "sorted (map (stream_ordering \<circ> ev_row) evs)"
    using room_stream_rows_sorted_stream [where ord = ord and tbl = "events st" and room = room and limit = limit]
    by (auto simp: map_map [symmetric] simp del: map_map)
next
  assume "returned_events (get_recent_events_for_room st room limit to_key from_token) = Inr evs"
  from recent_loaded [OF ids this]
  show "sorted (map (composite \<circ> ev_row) evs)"
    using recent_rows_sorted by (auto simp: map_map [symmetric] simp del: map_map)
next
  assume "returned_events (get_appservice_room_stream st service from_key to_key limit) = Inr evs"
  from appservice_loaded [OF ids this]
  show "sorted (map (stream_ordering \<circ> ev_row) evs)"
    using appservice_survivors_sorted
    by (auto simp: map_map [symmetric] simp del: map_map)
next
  assume a: "direction \<noteq> ''b''
      \<and> returned_events (paginate_room_events st room from_key to_token direction limit) = Inr evs"
  then have "returned_events (paginate_room_events st room from_key to_token direction limit)
      = Inr evs" by (rule conjunct2)
  from paginate_loaded [OF ids this] a
  show "sorted (map (composite \<circ> ev_row) evs)"
    using paginate_rows_sorted [where ord = ASC and tbl = "events st" and room = room and limit = limit]
    by (auto simp: map_map [symmetric] simp del: map_map)
next
  assume "returned_events (paginate_room_events st room from_key to_token ''b'' limit) = Inr evs"
  from paginate_loaded [OF ids this]
  obtain bounds where m: "map ev_row evs = paginate_rows (events st) room DESC bounds limit"
    by auto
  have "sorted (map composite (rev (map ev_row evs)))"
    using paginate_rows_sorted [where ord = DESC and tbl = "events st" and room = room
        and limit = limit and bounds = bounds]
    by (simp add: m)
  then show "sorted (rev (map (composite \<circ> ev_row) evs))"
    by (simp add: rev_map)
qed

lemma batch_cases: "batch res = [] \<or> returned_events res = Inr (batch res)"
  by (auto simp: batch_def returned_events_def split: sum.splits)

subsection \<open>The context window around an event\<close>

lemma in_take_sorted_wrt:
  assumes "sorted_wrt (\<lambda>a b. le (f a) (f b)) L" and "x \<in> set L" and "le (f x) (f x)"
    and "length (filter (\<lambda>y. le (f y) (f x)) L) \<le> n"
  shows "x \<in> set (take n L)"
  using assms
proof (induction L arbitrary: n)
  case Nil
  then show ?case by simp
next
  case (Cons a L)
  show ?case
  proof (cases "x = a")
    case True
    with Cons.prems(3,4) obtain m where "n = Suc m" by (cases n) auto
    with True show ?thesis by simp
  next
    case False
    with Cons.prems(2) have xin: "x \<in> set L" by simp
    with Cons.prems(1) have "le (f a) (f x)" by auto
    with Cons.prems(4) obtain m where n: "n = Suc m"
      and "length (filter (\<lambda>y. le (f y) (f x)) L) \<le> m"
      by (cases n) auto
    with Cons.IH [of m] Cons.prems(1,3) xin have "x \<in> set (take m L)" by simp
    with n show ?thesis by simp
  qed
qed

lemma length_filter_sort_key: "length (filter Q (sort_key f xs)) = length (filter Q xs)"
proof -
  have "mset (filter Q (sort_key f xs)) = mset (filter Q xs)" by simp
  then show ?thesis by (rule mset_eq_length)
qed

lemma in_sql_limit_ascending:
  assumes x: "x \<in> set F"
    and n: "n < 0 \<or> int (length (filter (\<lambda>y. f y \<le> f x) F)) \<le> n"
  shows "x \<in> set (sql_limit n (order_by ASC f F))"
proof (cases "n < 0")
  case True
  with x show ?thesis by (simp add: sql_limit_def)
next
  case False
  have "sorted_wrt (\<lambda>a b. f a \<le> f b) (sort_key f F)"
    using sorted_sort_key [of f F] by (simp only: sorted_map)
  moreover have "x \<in> set (sort_key f F)" using x by simp
  moreover have "length (filter (\<lambda>y. f y \<le> f x) (sort_key f F)) \<le> nat n"
    using n False by (simp add: length_filter_sort_key)
  ultimately have "x \<in> set (take (nat n) (sort_key f F))"
    by (intro in_take_sorted_wrt [where le = "(\<le>)" and f = f]) simp_all
  with False show ?thesis by (simp add: sql_limit_def order_by_def)
qed

lemma in_sql_limit_descending:
  assumes x: "x \<in> set F"
    and n: "n < 0 \<or> int (length (filter (\<lambda>y. f x \<le> f y) F)) \<le> n"
  shows "x \<in> set (sql_limit n (order_by DESC f F))"
proof (cases "n < 0")
  case True
  with x show ?thesis by (simp add: sql_limit_def)
next
  case False
  have "sorted_wrt (\<lambda>a b. f a \<le> f b) (sort_key f F)"
    using sorted_sort_key [of f F] by (simp only: sorted_map)
  then have "sorted_wrt (\<lambda>a b. f b \<le> f a) (rev (sort_key f F))"
    by (simp add: sorted_wrt_rev)
  moreover have "x \<in> set (rev (sort_key f F))" using x by simp
  moreover have "length (filter (\<lambda>y. f x \<le> f y) (rev (sort_key f F))) \<le> nat n"
    using n False by (simp add: rev_filter [symmetric] length_filter_sort_key)
  ultimately have "x \<in> set (take (nat n) (rev (sort_key f F)))"
    by (intro in_take_sorted_wrt [where le = "\<lambda>u v. v \<le> u" and f = f]) simp_all
  with False show ?thesis by (simp add: sql_limit_def order_by_def)
qed

lemma find_pinned:
  "distinct (map event_id tbl) \<Longrightarrow> pin \<in> set tbl
     \<Longrightarrow> find (\<lambda>x. event_id x = event_id pin \<and> room_id x = room_id pin) tbl = Some pin"
proof (induction tbl)
  case Nil
  then show ?case by simp
next
  case (Cons a tbl)
  then show ?case by (cases "a = pin") (auto simp: image_iff)
qed

lemma simple_select_one_pinned:
  "distinct (map event_id tbl) \<Longrightarrow> pin \<in> set tbl
     \<Longrightarrow> simple_select_one_txn tbl (event_id pin) (room_id pin) = Inr pin"
  by (simp add: simple_select_one_txn_def find_pinned)

lemma query_before_eq:
  "query_before tbl room (topological_ordering pin) (stream_ordering pin) limit =
     sql_limit limit (order_by DESC composite
       (filter (\<lambda>r. room_id r = room \<and> composite r < composite pin) tbl))"
proof -
  have "(\<lambda>r. room_id r = room
            \<and> (topological_ordering r < topological_ordering pin
                 \<or> (topological_ordering r = topological_ordering pin
                      \<and> stream_ordering r < stream_ordering pin)))
      = (\<lambda>r. room_id r = room \<and> composite r < composite pin)"
    by (auto simp: composite_def less_prod_def)
  then show ?thesis by (simp only: query_before_def)
qed

lemma query_after_eq:
  "query_after tbl room (topological_ordering pin) (stream_ordering pin) limit =
     sql_limit limit (order_by ASC composite
       (filter (\<lambda>r. room_id r = room \<and> composite pin < composite r) tbl))"
proof -
  have "(\<lambda>r. room_id r = room
            \<and> (topological_ordering r > topological_ordering pin
                 \<or> (topological_ordering r = topological_ordering pin
                      \<and> stream_ordering r > stream_ordering pin)))
      = (\<lambda>r. room_id r = room \<and> composite pin < composite r)"
    by (auto simp: composite_def less_prod_def)
  then show ?thesis by (simp only: query_after_def)
qed

lemma set_query_before: "set (query_before tbl room topo strm limit) \<subseteq> set tbl"
  using set_sql_limit [of limit "order_by DESC composite
       (filter (\<lambda>r. room_id r = room
                   \<and> (topological_ordering r < topo
                        \<or> (topological_ordering r = topo \<and> stream_ordering r < strm))) tbl)"]
  by (auto simp: query_before_def)

lemma set_query_after: "set (query_after tbl room topo strm limit) \<subseteq> set tbl"
  using set_sql_limit [of limit "order_by ASC composite
       (filter (\<lambda>r. room_id r = room
                   \<and> (topological_ordering r > topo
                        \<or> (topological_ordering r = topo \<and> stream_ordering r > strm))) tbl)"]
  by (auto simp: query_after_def)

lemma get_events_around_pinned:
  assumes ids: "distinct (map event_id (events st))" and pin: "pin \<in> set (events st)"
  shows "\<exists>res. fst (get_events_around st (room_id pin) (event_id pin) before_limit after_limit)
             = Inr res
           \<and> map ev_row (events_before res)
               = query_before (events st) (room_id pin) (topological_ordering pin)
                   (stream_ordering pin) before_limit
           \<and> map ev_row (events_after res)
               = query_after (events st) (room_id pin) (topological_ordering pin)
                   (stream_ordering pin) after_limit"
proof -
  have b: "map ev_row (get_events (events st)
        (map event_id (query_before (events st) room topo strm n)))
      = query_before (events st) room topo strm n" for room topo strm n
    using ids set_query_before by (rule loaded_rows)
  have a: "map ev_row (get_events (events st)
        (map event_id (query_after (events st) room topo strm n)))
      = query_after (events st) room topo strm n" for room topo strm n
    using ids set_query_after by (rule loaded_rows)
  show ?thesis
    by (simp add: get_events_around_def get_events_around_txn_def
        simple_select_one_pinned [OF ids pin] Let_def a b)
qed

lemma stream_for_room_no_outlier:
  assumes ids: "distinct (map event_id (events st))"
    and ev: "ev \<in> set (batch (get_room_events_stream_for_room st room from_key to_key limit ord))"
  shows "\<not> outlier (ev_row ev)"
proof -
  let ?res = "get_room_events_stream_for_room st room from_key to_key limit ord"
  from ev batch_cases [of ?res] have "returned_events ?res = Inr (batch ?res)" by auto
  from stream_for_room_loaded [OF ids this] ev
  obtain from_id to_id where "map ev_row (batch ?res) =
      (case ord of ASC \<Rightarrow> room_stream_rows (events st) room from_id to_id limit ord
                 | DESC \<Rightarrow> rev (room_stream_rows (events st) room from_id to_id limit ord))"
    by auto
  then have "set (map ev_row (batch ?res))
      = set (room_stream_rows (events st) room from_id to_id limit ord)"
    by (cases ord) simp_all
  moreover from ev have "ev_row ev \<in> set (map ev_row (batch ?res))" by simp
  ultimately show ?thesis using set_room_stream_rows by blast
qed

lemma paginate_no_outlier:
  assumes ids: "distinct (map event_id (events st))"
    and ev: "ev \<in> set (batch (paginate_room_events st room from_key to_key direction limit))"
  shows "\<not> outlier (ev_row ev)"
proof -
  let ?res = "paginate_room_events st room from_key to_key direction limit"
  from ev batch_cases [of ?res] have "returned_events ?res = Inr (batch ?res)" by auto
  from paginate_loaded [OF ids this]
  obtain bounds where "map ev_row (batch ?res)
      = paginate_rows (events st) room (if direction = ''b'' then DESC else ASC) bounds limit"
    by auto
  moreover from ev have "ev_row ev \<in> set (map ev_row (batch ?res))" by simp
  ultimately show ?thesis using set_paginate_rows by fastforce
qed

lemma recent_no_outlier:
  assumes ids: "distinct (map event_id (events st))"
    and ev: "ev \<in> set (batch (get_recent_events_for_room st room limit end_key from_token))"
  shows "\<not> outlier (ev_row ev)"
proof -
  let ?res = "get_recent_events_for_room st room limit end_key from_token"
  from ev batch_cases [of ?res] have "returned_events ?res = Inr (batch ?res)" by auto
  from recent_loaded [OF ids this]
  obtain end_id from_id where "map ev_row (batch ?res)
      = recent_rows (events st) room limit end_id from_id"
    by auto
  moreover from ev have "ev_row ev \<in> set (map ev_row (batch ?res))" by simp
  ultimately show ?thesis using set_recent_rows by fastforce
qed

lemma outlier_before_pin:
  assumes ids: "distinct (map event_id (events st))" and pin: "pin \<in> set (events st)"
    and r: "r \<in> set (events st)" "room_id r = room_id pin"
    and lt: "composite r < composite pin"
    and lim: "before_limit < 0 \<or>
       int (length (filter (\<lambda>x. room_id x = room_id pin \<and> composite r \<le> composite x
                               \<and> composite x < composite pin) (events st))) \<le> before_limit"
  shows "\<exists>res. fst (get_events_around st (room_id pin) (event_id pin) before_limit after_limit)
            = Inr res \<and> r \<in> ev_row ` set (events_before res)"
proof -
  let ?F = "filter (\<lambda>x. room_id x = room_id pin \<and> composite x < composite pin) (events st)"
  have "filter (\<lambda>y. composite r \<le> composite y) ?F
      = filter (\<lambda>x. room_id x = room_id pin \<and> composite r \<le> composite x
                               \<and> composite x < composite pin) (events st)"
    by (auto simp: filter_filter intro!: filter_cong)
  with lim have "before_limit < 0
      \<or> int (length (filter (\<lambda>y. composite r \<le> composite y) ?F)) \<le> before_limit"
    by simp
  moreover have "r \<in> set ?F" using r lt by simp
  ultimately have "r \<in> set (sql_limit before_limit (order_by DESC composite ?F))"
    by (intro in_sql_limit_descending)
  then have "r \<in> set (query_before (events st) (room_id pin) (topological_ordering pin)
      (stream_ordering pin) before_limit)"
    by (simp only: query_before_eq)
  moreover from get_events_around_pinned [OF ids pin, of before_limit after_limit]
  obtain res where
    "fst (get_events_around st (room_id pin) (event_id pin) before_limit after_limit) = Inr res"
    "map ev_row (events_before res)
        = query_before (events st) (room_id pin) (topological_ordering pin)
            (stream_ordering pin) before_limit"
    by blast
  ultimately show ?thesis by (metis set_map)
qed

lemma outlier_after_pin:
  assumes ids: "distinct (map event_id (events st))" and pin: "pin \<in> set (events st)"
    and r: "r \<in> set (events st)" "room_id r = room_id pin"
    and lt: "composite pin < composite r"
    and lim: "after_limit < 0 \<or>
       int (length (filter (\<lambda>x. room_id x = room_id pin \<and> composite pin < composite x
                               \<and> composite x \<le> composite r) (events st))) \<le> after_limit"
  shows "\<exists>res. fst (get_events_around st (room_id pin) (event_id pin) before_limit after_limit)
            = Inr res \<and> r \<in> ev_row ` set (events_after res)"
proof -
  let ?F = "filter (\<lambda>x. room_id x = room_id pin \<and> composite pin < composite x) (events st)"
  have "filter (\<lambda>y. composite y \<le> composite r) ?F
      = filter (\<lambda>x. room_id x = room_id pin \<and> composite pin < composite x
                               \<and> composite x \<le> composite r) (events st)"
    by (auto simp: filter_filter intro!: filter_cong)
  with lim have "after_limit < 0
      \<or> int (length (filter (\<lambda>y. composite y \<le> composite r) ?F)) \<le> after_limit"
    by simp
  moreover have "r \<in> set ?F" using r lt by simp
  ultimately have "r \<in> set (sql_limit after_limit (order_by ASC composite ?F))"
    by (intro in_sql_limit_ascending)
  then have "r \<in> set (query_after (events st) (room_id pin) (topological_ordering pin)
      (stream_ordering pin) after_limit)"
    by (simp only: query_after_eq)
  moreover from get_events_around_pinned [OF ids pin, of before_limit after_limit]
  obtain res where
    "fst (get_events_around st (room_id pin) (event_id pin) before_limit after_limit) = Inr res"
    "map ev_row (events_after res)
        = query_after (events st) (room_id pin) (topological_ordering pin)
            (stream_ordering pin) after_limit"
    by blast
  ultimately show ?thesis by (metis set_map)
qed

text \<open>
  C10 (amended). The two queries of \<^verbatim>\<open>get_events_around\<close> place no condition on the
  outlier flag: with distinct event ids, for every pinned event of the table and every
  outlier event \<open>r\<close> of the same room whose composite position lies strictly before
  that of the pinned event, if the limit is negative or at least the number of events
  of the room from \<open>r\<close> up to the pinned event (\<open>r\<close> counted, the pinned event not),
  then \<open>r\<close> is among \<^verbatim>\<open>events_before\<close>; and likewise for an outlier strictly after
  the pinned event and \<^verbatim>\<open>events_after\<close>. By contrast
  \<^verbatim>\<open>get_room_events_stream_for_room\<close>, \<^verbatim>\<open>paginate_room_events\<close> and
  \<^verbatim>\<open>get_recent_events_for_room\<close> never return an outlier.
\<close>

theorem context_window_includes_outliers:
  assumes ids: "distinct (map event_id (events st))"
    and pin: "pin \<in> set (events st)"
    and r: "r \<in> set (events st)" "room_id r = room_id pin" "outlier r"
  shows "(composite r < composite pin
          \<and> (before_limit < 0 \<or>
              int (length (filter (\<lambda>x. room_id x = room_id pin \<and> composite r \<le> composite x
                                      \<and> composite x < composite pin) (events st)))
                \<le> before_limit)
          \<longrightarrow> (\<exists>res. fst (get_events_around st (room_id pin) (event_id pin)
                               before_limit after_limit) = Inr res
                     \<and> r \<in> ev_row ` set (events_before res)))
       \<and> (composite pin < composite r
          \<and> (after_limit < 0 \<or>
              int (length (filter (\<lambda>x. room_id x = room_id pin \<and> composite pin < composite x
                                      \<and> composite x \<le> composite r) (events st)))
                \<le> after_limit)
          \<longrightarrow> (\<exists>res. fst (get_events_around st (room_id pin) (event_id pin)
                               before_limit after_limit) = Inr res
                     \<and> r \<in> ev_row ` set (events_after res)))
       \<and> (\<forall>ev \<in> set (batch (get_room_events_stream_for_room st room from_key to_key limit ord)).
            \<not> outlier (ev_row ev))
       \<and> (\<forall>ev \<in> set (batch (paginate_room_events st room from_token to_token direction limit)).
            \<not> outlier (ev_row ev))
       \<and> (\<forall>ev \<in> set (batch (get_recent_events_for_room st room limit to_key from_key)).
            \<not> outlier (ev_row ev))"
proof (intro conjI impI ballI)
  assume "composite r < composite pin
          \<and> (before_limit < 0 \<or>
              int (length (filter (\<lambda>x. room_id x = room_id pin \<and> composite r \<le> composite x
                                      \<and> composite x < composite pin) (events st)))
                \<le> before_limit)"
  then show "\<exists>res. fst (get_events_around st (room_id pin) (event_id pin)
                               before_limit after_limit) = Inr res
                     \<and> r \<in> ev_row ` set (events_before res)"
    using outlier_before_pin [OF ids pin r(1,2)] by blast
next
  assume "composite pin < composite r
          \<and> (after_limit < 0 \<or>
              int (length (filter (\<lambda>x. room_id x = room_id pin \<and> composite pin < composite x
                                      \<and> composite x \<le> composite r) (events st)))
                \<le> after_limit)"
  then show "\<exists>res. fst (get_events_around st (room_id pin) (event_id pin)
                               before_limit after_limit) = Inr res
                     \<and> r \<in> ev_row ` set (events_after res)"
    using outlier_after_pin [OF ids pin r(1,2)] by blast
next
  fix ev assume "ev \<in> set (batch (get_room_events_stream_for_room st room from_key to_key limit ord))"
  with ids show "\<not> outlier (ev_row ev)" by (rule stream_for_room_no_outlier)
next
  fix ev assume "ev \<in> set (batch (paginate_room_events st room from_token to_token direction limit))"
  with ids show "\<not> outlier (ev_row ev)" by (rule paginate_no_outlier)
next
  fix ev assume "ev \<in> set (batch (get_recent_events_for_room st room limit to_key from_key))"
  with ids show "\<not> outlier (ev_row ev)" by (rule recent_no_outlier)
qed


theorem context_window_includes_outliers_witness:
  "distinct (map event_id (events outlier_store))
   \<and> outlier (outlier_room ! 1)
   \<and> composite (outlier_room ! 1) < composite (outlier_room ! 2)
   \<and> composite (outlier_room ! 0) < composite (outlier_room ! 1)
   \<and> (\<exists>res. fst (get_events_around outlier_store ''!R'' ''$e3'' 1 1) = Inr res
            \<and> outlier_room ! 1 \<in> ev_row ` set (events_before res))
   \<and> (\<exists>res. fst (get_events_around outlier_store ''!R'' ''$e1'' 1 1) = Inr res
            \<and> outlier_room ! 1 \<in> ev_row ` set (events_after res))
   \<and> map (event_id \<circ> ev_row)
        (batch (get_room_events_stream_for_room outlier_store ''!R'' None ''s3'' 10 ASC))
       = [''$e1'', ''$e3'']
   \<and> list_all (\<lambda>ev. \<not> outlier (ev_row ev))
        (batch (get_room_events_stream_for_room outlier_store ''!R'' None ''s3'' 10 ASC))
   \<and> list_all (\<lambda>ev. \<not> outlier (ev_row ev))
        (batch (paginate_room_events outlier_store ''!R'' ''t3-3'' None ''b'' 10))
   \<and> list_all (\<lambda>ev. \<not> outlier (ev_row ev))
        (batch (get_recent_events_for_room outlier_store ''!R'' 10 ''s3'' None))"
proof -
  note defs = outlier_store_def outlier_room_def message_row_def
  have ids: "distinct (map event_id (events outlier_store))" by (simp add: defs)
  have out: "outlier (outlier_room ! 1)" by (simp add: defs)
  have p3: "outlier_room ! 2 \<in> set (events outlier_store)" by (simp add: defs)
  have p1: "outlier_room ! 0 \<in> set (events outlier_store)" by (simp add: defs)
  have rin: "outlier_room ! 1 \<in> set (events outlier_store)" by (simp add: defs)
  have room3: "room_id (outlier_room ! 1) = room_id (outlier_room ! 2)" by (simp add: defs)
  have room1: "room_id (outlier_room ! 1) = room_id (outlier_room ! 0)" by (simp add: defs)
  have lt3: "composite (outlier_room ! 1) < composite (outlier_room ! 2)"
    by (simp add: defs composite_def less_prod_def)
  have lt1: "composite (outlier_room ! 0) < composite (outlier_room ! 1)"
    by (simp add: defs composite_def less_prod_def)
  have n3: "int (length (filter (\<lambda>x. room_id x = room_id (outlier_room ! 2)
        \<and> composite (outlier_room ! 1) \<le> composite x
        \<and> composite x < composite (outlier_room ! 2)) (events outlier_store))) \<le> 1"
    by (simp add: defs composite_def less_prod_def less_eq_prod_def)
  have n1: "int (length (filter (\<lambda>x. room_id x = room_id (outlier_room ! 0)
        \<and> composite (outlier_room ! 0) < composite x
        \<and> composite x \<le> composite (outlier_room ! 1)) (events outlier_store))) \<le> 1"
    by (simp add: defs composite_def less_prod_def less_eq_prod_def)
  have e3: "room_id (outlier_room ! 2) = ''!R''" "event_id (outlier_room ! 2) = ''$e3''"
    by (simp_all add: defs)
  have e1: "room_id (outlier_room ! 0) = ''!R''" "event_id (outlier_room ! 0) = ''$e1''"
    by (simp_all add: defs)
  note T3 = context_window_includes_outliers [OF ids p3 rin room3 out,
      where before_limit = 1 and after_limit = 1 and room = "''!R''" and from_key = None
        and to_key = "''s3''" and limit = 10 and ord = ASC and from_token = "''t3-3''"
        and to_token = None and direction = "''b''"]
  note T1 = context_window_includes_outliers [OF ids p1 rin room1 out,
      where before_limit = 1 and after_limit = 1 and room = "''!R''" and from_key = None
        and to_key = "''s3''" and limit = 10 and ord = ASC and from_token = "''t3-3''"
        and to_token = None and direction = "''b''"]
  from T3 lt3 n3 have b: "\<exists>res. fst (get_events_around outlier_store ''!R'' ''$e3'' 1 1) = Inr res
            \<and> outlier_room ! 1 \<in> ev_row ` set (events_before res)"
    unfolding e3 by blast
  from T1 lt1 n1 have a: "\<exists>res. fst (get_events_around outlier_store ''!R'' ''$e1'' 1 1) = Inr res
            \<and> outlier_room ! 1 \<in> ev_row ` set (events_after res)"
    unfolding e1 by blast
  have v: "map (event_id \<circ> ev_row)
        (batch (get_room_events_stream_for_room outlier_store ''!R'' None ''s3'' 10 ASC))
       = [''$e1'', ''$e3'']"
    by code_simp
  from T3 have s: "list_all (\<lambda>ev. \<not> outlier (ev_row ev))
        (batch (get_room_events_stream_for_room outlier_store ''!R'' None ''s3'' 10 ASC))"
    and p: "list_all (\<lambda>ev. \<not> outlier (ev_row ev))
        (batch (paginate_room_events outlier_store ''!R'' ''t3-3'' None ''b'' 10))"
    and c: "list_all (\<lambda>ev. \<not> outlier (ev_row ev))
        (batch (get_recent_events_for_room outlier_store ''!R'' 10 ''s3'' None))"
    unfolding list_all_iff by blast+
  from ids out lt3 lt1 b a v s p c show ?thesis by (intro conjI)
qed

text \<open>
  C10 as stated fails in its last clause: not every streaming read excludes outliers.
  \<^verbatim>\<open>get_appservice_room_stream\<close> has no condition on the outlier flag and returns the
  outlier of a room the service is interested in.
\<close>

theorem streaming_read_returns_outlier_counterexample:
  "map (\<lambda>ev. (event_id (ev_row ev), outlier (ev_row ev)))
       (batch (get_appservice_room_stream outlier_store room_service ''s0'' ''s3'' 0))
     = [(''$e1'', False), (''$e2'', True), (''$e3'', False)]"
  by code_simp

subsection \<open>The dependency container\<close>

lemma marks_persist:
  "get_dependency n bs hs x = Some (r, hs') \<Longrightarrow> d \<in> dom (building hs) \<Longrightarrow> attrs hs d = None
     \<Longrightarrow> d \<in> dom (building hs') \<and> attrs hs' d = None"
  "call_accessors n bs hs xs = Some (rs, hs'') \<Longrightarrow> d \<in> dom (building hs) \<Longrightarrow> attrs hs d = None
     \<Longrightarrow> d \<in> dom (building hs'') \<and> attrs hs'' d = None"
proof (induction n bs hs x and n bs hs xs arbitrary: r hs' and rs hs''
    rule: get_dependency_call_accessors.induct)
  case (1 builders hs depname)
  then show ?case by simp
next
  case (2 n builders hs depname)
  show ?case
  proof (cases "depname \<in> set DEPENDENCIES \<and> attrs hs depname = None
      \<and> builders depname \<noteq> None \<and> depname \<notin> dom (building hs)")
    case False
    with "2.prems" show ?thesis
      by (auto split: option.splits if_splits)
  next
    case True
    then obtain b where b: "builders depname = Some b" by auto
    from True "2.prems"(2) have ne: "depname \<noteq> d" by auto
    let ?hs1 = "hs\<lparr>building := (building hs)(depname \<mapsto> 1)\<rparr>"
    from "2.prems"(1) True b obtain res hs1 where
      run: "call_accessors n builders ?hs1 (needs b) = Some (res, hs1)"
      by (auto split: option.splits)
    have "d \<in> dom (building ?hs1)" "attrs ?hs1 d = None"
      using "2.prems"(2,3) by auto
    from True have c1: "\<not> depname \<notin> set DEPENDENCIES" and c2: "attrs hs depname = None"
      and c4: "\<not> depname \<in> dom (building hs)" by auto
    have inv: "d \<in> dom (building hs1) \<and> attrs hs1 d = None"
      by (rule "2.IH" [OF c1 c2 b c4 run]) (use "2.prems"(2,3) in auto)
    from "2.prems"(1) True b run ne inv show ?thesis
      by (cases res) (auto simp: Let_def split: if_splits)
  qed
next
  case (3 n builders hs)
  then show ?case by simp
next
  case (4 n builders hs d' ds)
  from "4.prems"(1) obtain r1 hs1 where g: "get_dependency n builders hs d' = Some (r1, hs1)"
    by (auto split: option.splits)
  from "4.IH"(1) [OF g "4.prems"(2,3)] have inv1: "d \<in> dom (building hs1) \<and> attrs hs1 d = None" .
  show ?case
  proof (cases r1)
    case (Inl e)
    with "4.prems"(1) g inv1 show ?thesis by auto
  next
    case (Inr v)
    with "4.prems"(1) g obtain r2 hs2 where c: "call_accessors n builders hs1 ds = Some (r2, hs2)"
      by (auto split: option.splits)
    from "4.IH"(2) [OF g _ Inr c] inv1
    have "d \<in> dom (building hs2) \<and> attrs hs2 d = None" by auto
    with "4.prems"(1) g Inr c show ?thesis by (cases r2) auto
  qed
qed


lemma success_restores_marks:
  "get_dependency n bs hs x = Some (Inr v, hs') \<Longrightarrow> building hs' = building hs"
  "call_accessors n bs hs xs = Some (Inr vs, hs'') \<Longrightarrow> building hs'' = building hs"
proof (induction n bs hs x and n bs hs xs arbitrary: v hs' and vs hs''
    rule: get_dependency_call_accessors.induct)
  case (1 builders hs depname)
  then show ?case by simp
next
  case (2 n builders hs depname)
  show ?case
  proof (cases "depname \<in> set DEPENDENCIES \<and> attrs hs depname = None
      \<and> builders depname \<noteq> None \<and> depname \<notin> dom (building hs)")
    case False
    with "2.prems" show ?thesis
      by (auto split: option.splits if_splits)
  next
    case True
    then obtain b where b: "builders depname = Some b" by auto
    from True have c1: "\<not> depname \<notin> set DEPENDENCIES" and c2: "attrs hs depname = None"
      and c4: "\<not> depname \<in> dom (building hs)" by auto
    let ?hs1 = "hs\<lparr>building := (building hs)(depname \<mapsto> 1)\<rparr>"
    from "2.prems" True b obtain vs hs1 where
      run: "call_accessors n builders ?hs1 (needs b) = Some (Inr vs, hs1)"
      by (auto split: option.splits sum.splits)
    from "2.IH" [OF c1 c2 b c4 run] have m: "building hs1 = building ?hs1" .
    from "2.prems" True b run m c4 show ?thesis
      by (auto simp: Let_def split: if_splits)
  qed
next
  case (3 n builders hs)
  then show ?case by simp
next
  case (4 n builders hs d' ds)
  from "4.prems" obtain v1 hs1 where g: "get_dependency n builders hs d' = Some (Inr v1, hs1)"
    by (auto split: option.splits sum.splits)
  with "4.prems" obtain v2 hs2 where c: "call_accessors n builders hs1 ds = Some (Inr v2, hs2)"
    by (auto split: option.splits sum.splits)
  from "4.IH"(1) [OF g] "4.IH"(2) [OF g _ _ c] have "building hs2 = building hs" by simp
  with "4.prems" g c show ?case by auto
qed

lemma no_key_error:
  "get_dependency n bs hs x = Some (Inl e, hs') \<Longrightarrow> e \<noteq> KeyError k"
  "call_accessors n bs hs xs = Some (Inl e', hs'') \<Longrightarrow> e' \<noteq> KeyError k"
proof (induction n bs hs x and n bs hs xs arbitrary: e hs' and e' hs''
    rule: get_dependency_call_accessors.induct)
  case (1 builders hs depname)
  then show ?case by simp
next
  case (2 n builders hs depname)
  show ?case
  proof (cases "depname \<in> set DEPENDENCIES \<and> attrs hs depname = None
      \<and> builders depname \<noteq> None \<and> depname \<notin> dom (building hs)")
    case False
    with "2.prems" show ?thesis
      by (auto split: option.splits if_splits)
  next
    case True
    then obtain b where b: "builders depname = Some b" by auto
    from True have c1: "\<not> depname \<notin> set DEPENDENCIES" and c2: "attrs hs depname = None"
      and c4: "\<not> depname \<in> dom (building hs)" by auto
    let ?hs1 = "hs\<lparr>building := (building hs)(depname \<mapsto> 1)\<rparr>"
    from "2.prems" True b obtain res hs1 where
      run: "call_accessors n builders ?hs1 (needs b) = Some (res, hs1)"
      by (auto split: option.splits)
    show ?thesis
    proof (cases res)
      case (Inl e1)
      with "2.IH" [OF c1 c2 b c4] run have "e1 \<noteq> KeyError k" by simp
      with "2.prems" True b run Inl show ?thesis by auto
    next
      case (Inr vs)
      from run Inr have "building hs1 = building ?hs1" by (simp add: success_restores_marks(2))
      with "2.prems" True b run Inr show ?thesis by (auto simp: Let_def)
    qed
  qed
next
  case (3 n builders hs)
  then show ?case by simp
next
  case (4 n builders hs d' ds)
  from "4.prems" obtain r1 hs1 where g: "get_dependency n builders hs d' = Some (r1, hs1)"
    by (auto split: option.splits)
  show ?case
  proof (cases r1)
    case (Inl e1)
    with "4.IH"(1) g have "e1 \<noteq> KeyError k" by simp
    with "4.prems" g Inl show ?thesis by auto
  next
    case (Inr v)
    with "4.prems" g obtain e2 where c: "call_accessors n builders hs1 ds = Some (Inl e2, hs'')"
      and "e' = e2"
      by (auto split: option.splits sum.splits)
    with "4.IH"(2) [OF g _ Inr] show ?thesis by simp
  qed
qed

lemma success_memoizes:
  assumes "get_dependency n bs hs d = Some (Inr v, hs')"
  shows "attrs hs' d = Some v \<and> d \<in> set DEPENDENCIES"
proof (cases n)
  case 0
  with assms show ?thesis by simp
next
  case (Suc m)
  with assms show ?thesis
    by (auto simp: Let_def split: option.splits if_splits sum.splits)
qed

lemma reentry_fails:
  assumes "d \<in> set DEPENDENCIES" and "attrs hs d = None" and "bs d = Some b"
    and "d \<in> dom (building hs)"
  shows "get_dependency (Suc n) bs hs d = Some (Inl (CyclicDependency d), hs)"
  using assms by auto

text \<open>
  The cycle detection bounds the depth of the calls: a resolution needs no more nested
  calls than there are unmarked names in \<^verbatim>\<open>DEPENDENCIES\<close>, so 32 levels always give
  an answer.
\<close>

lemma resolution_terminates:
  "card (set DEPENDENCIES - dom (building hs)) < n \<Longrightarrow> get_dependency n bs hs x \<noteq> None"
  "card (set DEPENDENCIES - dom (building hs)) < n \<Longrightarrow> call_accessors n bs hs xs \<noteq> None"
proof (induction n bs hs x and n bs hs xs rule: get_dependency_call_accessors.induct)
  case (1 builders hs depname)
  then show ?case by simp
next
  case (2 n builders hs depname)
  show ?case
  proof (cases "depname \<in> set DEPENDENCIES \<and> attrs hs depname = None
      \<and> builders depname \<noteq> None \<and> depname \<notin> dom (building hs)")
    case False
    then show ?thesis by (auto split: option.splits)
  next
    case True
    then obtain b where b: "builders depname = Some b" by auto
    from True have c1: "\<not> depname \<notin> set DEPENDENCIES" and c2: "attrs hs depname = None"
      and c4: "\<not> depname \<in> dom (building hs)" by auto
    let ?hs1 = "hs\<lparr>building := (building hs)(depname \<mapsto> 1)\<rparr>"
    have "set DEPENDENCIES - dom (building ?hs1)
        = (set DEPENDENCIES - dom (building hs)) - {depname}"
      by auto
    moreover have "depname \<in> set DEPENDENCIES - dom (building hs)" using True by simp
    moreover have "finite (set DEPENDENCIES - dom (building hs))" by simp
    ultimately have "card (set DEPENDENCIES - dom (building ?hs1))
        < card (set DEPENDENCIES - dom (building hs))"
      by (metis card_Diff1_less)
    with "2.prems" have "card (set DEPENDENCIES - dom (building ?hs1)) < n" by simp
    with "2.IH" [OF c1 c2 b c4] have "call_accessors n builders ?hs1 (needs b) \<noteq> None" .
    with True b show ?thesis
      by (auto simp: Let_def split: option.splits sum.splits)
  qed
next
  case (3 n builders hs)
  then show ?case by simp
next
  case (4 n builders hs d' ds)
  from "4.IH"(1) [OF "4.prems"] obtain r1 hs1 where
    g: "get_dependency n builders hs d' = Some (r1, hs1)" by auto
  show ?case
  proof (cases r1)
    case (Inl e)
    with g show ?thesis by simp
  next
    case (Inr v)
    with g have "building hs1 = building hs" by (simp add: success_restores_marks(1))
    with "4.prems" have "card (set DEPENDENCIES - dom (building hs1)) < n" by simp
    with "4.IH"(2) [OF g _ Inr] have "call_accessors n builders hs1 ds \<noteq> None" by simp
    with g Inr show ?thesis by (auto split: sum.splits)
  qed
qed

lemma resolution_returns: "get_dependency 32 bs hs x \<noteq> None"
proof (rule resolution_terminates(1))
  have "card (set DEPENDENCIES - dom (building hs)) \<le> card (set DEPENDENCIES)"
    by (rule card_mono) auto
  also have "\<dots> \<le> length DEPENDENCIES" by (rule card_length)
  also have "\<dots> < 32" by (simp add: DEPENDENCIES_def)
  finally show "card (set DEPENDENCIES - dom (building hs)) < 32" .
qed

lemma builder_runs_marked:
  assumes d: "d \<in> set DEPENDENCIES" and a: "attrs hs d = None" and b: "builders d = Some b"
    and m: "d \<notin> dom (building hs)"
  shows "get_dependency (Suc n) builders hs d =
     (case call_accessors n builders (hs\<lparr>building := (building hs)(d \<mapsto> 1)\<rparr>) (needs b) of
        None \<Rightarrow> None
      | Some (Inl e, hs1) \<Rightarrow> Some (Inl e, hs1)
      | Some (Inr vs, hs1) \<Rightarrow>
          Some (Inr (construct b vs),
                hs1\<lparr>attrs := (attrs hs1)(d \<mapsto> construct b vs), building := building hs\<rparr>))"
proof (cases "call_accessors n builders (hs\<lparr>building := (building hs)(d \<mapsto> 1)\<rparr>) (needs b)")
  case None
  with d a b m show ?thesis by simp
next
  case (Some p)
  obtain r hs1 where p: "p = (r, hs1)" by (cases p)
  show ?thesis
  proof (cases r)
    case (Inl e)
    with Some p d a b m show ?thesis by simp
  next
    case (Inr vs)
    with Some p have "building hs1 = building (hs\<lparr>building := (building hs)(d \<mapsto> 1)\<rparr>)"
      by (simp add: success_restores_marks(2))
    then have bh: "building hs1 = (building hs)(d \<mapsto> 1)" by simp
    from m have "((building hs)(d \<mapsto> 1))(d := None) = building hs" by auto
    with Some p Inr d a b m bh show ?thesis by (simp add: Let_def)
  qed
qed

lemma call_accessors_prefix_fail:
  "call_accessors n bs hs xs = Some (Inr vs, hs1) \<Longrightarrow> get_dependency n bs hs1 x = Some (Inl e, hs2)
     \<Longrightarrow> call_accessors n bs hs (xs @ x # ys) = Some (Inl e, hs2)"
proof (induction xs arbitrary: hs vs)
  case Nil
  then show ?case by simp
next
  case (Cons a xs)
  from Cons.prems(1) obtain v h where g: "get_dependency n bs hs a = Some (Inr v, h)"
    by (auto split: option.splits sum.splits)
  with Cons.prems(1) obtain ws where c: "call_accessors n bs h xs = Some (Inr ws, hs1)"
    by (auto split: option.splits sum.splits)
  from Cons.IH [OF c Cons.prems(2)] g show ?case by simp
qed

lemma direct_cycle_detected:
  assumes d: "d \<in> set DEPENDENCIES" and a: "attrs hs d = None" and b: "builders d = Some b"
    and m: "d \<notin> dom (building hs)"
    and k: "k < length (needs b)" "needs b ! k = d"
    and run: "call_accessors (Suc n) builders (hs\<lparr>building := (building hs)(d \<mapsto> 1)\<rparr>)
                (take k (needs b)) = Some (Inr vs, hs1)"
  shows "get_dependency (Suc (Suc n)) builders hs d = Some (Inl (CyclicDependency d), hs1)"
proof -
  let ?hs0 = "hs\<lparr>building := (building hs)(d \<mapsto> 1)\<rparr>"
  from a have "d \<in> dom (building ?hs0)" "attrs ?hs0 d = None" by simp_all
  with marks_persist(2) [OF run] have inv: "d \<in> dom (building hs1) \<and> attrs hs1 d = None"
    by blast
  with d b have g: "get_dependency (Suc n) builders hs1 d = Some (Inl (CyclicDependency d), hs1)"
    by (intro reentry_fails) simp_all
  from k have "needs b = take k (needs b) @ d # drop (Suc k) (needs b)"
    by (metis id_take_nth_drop)
  with call_accessors_prefix_fail [OF run g, of "drop (Suc k) (needs b)"]
  have "call_accessors (Suc n) builders ?hs0 (needs b) = Some (Inl (CyclicDependency d), hs1)"
    by simp
  then show ?thesis
    by (simp only: builder_runs_marked [where builders = builders and d = d and hs = hs and b = b, OF d a b m]) simp
qed

lemma failure_leaves_mark:
  assumes d: "d \<in> set DEPENDENCIES" and a: "attrs hs d = None" and b: "builders d = Some b"
    and m: "d \<notin> dom (building hs)"
    and g: "get_dependency n builders hs d = Some (Inl e, hs3)"
  shows "d \<in> dom (building hs3)"
proof (cases n)
  case 0
  with g show ?thesis by simp
next
  case (Suc n')
  let ?hs0 = "hs\<lparr>building := (building hs)(d \<mapsto> 1)\<rparr>"
  from g Suc have "call_accessors n' builders ?hs0 (needs b) = Some (Inl e, hs3)"
    by (simp only: builder_runs_marked [where builders = builders and d = d and hs = hs and b = b, OF d a b m])
      (auto split: option.splits sum.splits)
  moreover from a have "d \<in> dom (building ?hs0)" "attrs ?hs0 d = None" by simp_all
  ultimately show ?thesis using marks_persist(2) by blast
qed

text \<open>
  C8. For every dependency name \<open>d\<close> of the home server, with no value set, a
  builder present and \<open>d\<close> not marked: a resolution of \<open>d\<close> is the run of the builder's
  accessor calls from the state in which \<open>d\<close> has been marked in \<^verbatim>\<open>_building\<close>; an
  error of the builder is the error of the resolution, and a value built is set as
  the attribute \<open>d\<close>, with the mark removed. In every state reached after some of the
  builder's accessor calls, whether the last of them succeeded or raised, \<open>d\<close> is
  marked, and a resolution of \<open>d\<close> from such a state fails with the cyclic dependency
  error naming \<open>d\<close>. A builder that asks for \<open>d\<close> itself, after accessor calls that
  succeeded, makes the resolution of \<open>d\<close> fail with that error. When the resolution
  of \<open>d\<close> raises, \<open>d\<close> is still marked in the state it leaves. Any resolution of \<open>d\<close>
  that finds \<open>d\<close> marked, with no value set and a builder present, fails with the
  cyclic dependency error and leaves the object as it is. When a resolution of \<open>d\<close>
  returns a value, this value is set as the attribute \<open>d\<close>, the marks are as they
  were before, and every later resolution of \<open>d\<close> returns the same value and leaves
  the object as it is, whatever the builders are.
\<close>

theorem dependency_resolution:
  assumes d: "d \<in> set DEPENDENCIES"
  shows "(attrs hs d = None \<and> builders d = Some b \<and> d \<notin> dom (building hs)
          \<longrightarrow> get_dependency (Suc n) builders hs d =
                (case call_accessors n builders (hs\<lparr>building := (building hs)(d \<mapsto> 1)\<rparr>)
                        (needs b) of
                   None \<Rightarrow> None
                 | Some (Inl e, hs1) \<Rightarrow> Some (Inl e, hs1)
                 | Some (Inr vs, hs1) \<Rightarrow>
                     Some (Inr (construct b vs),
                           hs1\<lparr>attrs := (attrs hs1)(d \<mapsto> construct b vs),
                                building := building hs\<rparr>)))
       \<and> (attrs hs d = None \<and> builders d = Some b \<and> d \<notin> dom (building hs)
          \<and> call_accessors n builders (hs\<lparr>building := (building hs)(d \<mapsto> 1)\<rparr>)
                (take k (needs b)) = Some (r, hs1)
          \<longrightarrow> d \<in> dom (building hs1)
              \<and> get_dependency (Suc m) builders hs1 d = Some (Inl (CyclicDependency d), hs1))
       \<and> (attrs hs d = None \<and> builders d = Some b \<and> d \<notin> dom (building hs)
          \<and> k < length (needs b) \<and> needs b ! k = d
          \<and> call_accessors (Suc n) builders (hs\<lparr>building := (building hs)(d \<mapsto> 1)\<rparr>)
                (take k (needs b)) = Some (Inr vs, hs1)
          \<longrightarrow> get_dependency (Suc (Suc n)) builders hs d = Some (Inl (CyclicDependency d), hs1))
       \<and> (attrs hs d = None \<and> builders d = Some b \<and> d \<notin> dom (building hs)
          \<and> get_dependency n builders hs d = Some (Inl e, hs3)
          \<longrightarrow> d \<in> dom (building hs3))
       \<and> (attrs hs d = None \<and> builders d = Some b \<and> d \<in> dom (building hs)
          \<longrightarrow> get_dependency (Suc n) builders hs d = Some (Inl (CyclicDependency d), hs))
       \<and> (get_dependency n builders hs d = Some (Inr v, hs2)
          \<longrightarrow> attrs hs2 d = Some v \<and> building hs2 = building hs
              \<and> get_dependency (Suc m) builders' hs2 d = Some (Inr v, hs2))"
proof (intro conjI impI)
  assume "attrs hs d = None \<and> builders d = Some b \<and> d \<notin> dom (building hs)"
  then show "get_dependency (Suc n) builders hs d =
                (case call_accessors n builders (hs\<lparr>building := (building hs)(d \<mapsto> 1)\<rparr>)
                        (needs b) of
                   None \<Rightarrow> None
                 | Some (Inl e, hs1) \<Rightarrow> Some (Inl e, hs1)
                 | Some (Inr vs, hs1) \<Rightarrow>
                     Some (Inr (construct b vs),
                           hs1\<lparr>attrs := (attrs hs1)(d \<mapsto> construct b vs),
                                building := building hs\<rparr>))"
    using d by (intro builder_runs_marked) simp_all
next
  assume a: "attrs hs d = None \<and> builders d = Some b \<and> d \<notin> dom (building hs)
          \<and> call_accessors n builders (hs\<lparr>building := (building hs)(d \<mapsto> 1)\<rparr>)
                (take k (needs b)) = Some (r, hs1)"
  let ?hs0 = "hs\<lparr>building := (building hs)(d \<mapsto> 1)\<rparr>"
  from a have run: "call_accessors n builders ?hs0 (take k (needs b)) = Some (r, hs1)"
    and b: "builders d = Some b" by simp_all
  from a have "d \<in> dom (building ?hs0)" "attrs ?hs0 d = None" by simp_all
  with marks_persist(2) [OF run] have inv: "d \<in> dom (building hs1) \<and> attrs hs1 d = None"
    by blast
  then show "d \<in> dom (building hs1)" by simp
  from inv b d show "get_dependency (Suc m) builders hs1 d = Some (Inl (CyclicDependency d), hs1)"
    by (intro reentry_fails) simp_all
next
  assume "attrs hs d = None \<and> builders d = Some b \<and> d \<notin> dom (building hs)
          \<and> k < length (needs b) \<and> needs b ! k = d
          \<and> call_accessors (Suc n) builders (hs\<lparr>building := (building hs)(d \<mapsto> 1)\<rparr>)
                (take k (needs b)) = Some (Inr vs, hs1)"
  then show "get_dependency (Suc (Suc n)) builders hs d = Some (Inl (CyclicDependency d), hs1)"
    using d by (intro direct_cycle_detected [where b = b and k = k and vs = vs]) simp_all
next
  assume "attrs hs d = None \<and> builders d = Some b \<and> d \<notin> dom (building hs)
          \<and> get_dependency n builders hs d = Some (Inl e, hs3)"
  then show "d \<in> dom (building hs3)"
    using d by (intro failure_leaves_mark [where hs = hs and b = b and e = e
          and builders = builders and n = n]) simp_all
next
  assume "attrs hs d = None \<and> builders d = Some b \<and> d \<in> dom (building hs)"
  with d show "get_dependency (Suc n) builders hs d = Some (Inl (CyclicDependency d), hs)"
    by (intro reentry_fails) simp_all
next
  assume g: "get_dependency n builders hs d = Some (Inr v, hs2)"
  from success_memoizes [OF g] show m: "attrs hs2 d = Some v" by simp
  from g show "building hs2 = building hs" by (rule success_restores_marks(1))
  from m d show "get_dependency (Suc m) builders' hs2 d = Some (Inr v, hs2)" by simp
qed


theorem dependency_resolution_witness:
  "''notifier'' \<in> set DEPENDENCIES \<and> ''auth'' \<in> set DEPENDENCIES
   \<and> ''pusherpool'' \<in> set DEPENDENCIES
   \<and> attrs example_server ''notifier'' = None
   \<and> ''notifier'' \<notin> dom (building example_server)
   \<and> map_option fst
        (call_accessors 4 example_builders
           (example_server\<lparr>building := (building example_server)(''notifier'' \<mapsto> 1)\<rparr>)
           [''keyring''])
       = Some (Inl (CyclicDependency ''notifier''))
   \<and> get_dependency 5 example_builders example_server ''notifier''
       = Some (Inl (CyclicDependency ''notifier''),
               snd (the (call_accessors 4 example_builders
                 (example_server\<lparr>building := (building example_server)(''notifier'' \<mapsto> 1)\<rparr>)
                 [''keyring''])))
   \<and> ''notifier'' \<in> dom (building
         (snd (the (get_dependency 5 example_builders example_server ''notifier''))))
   \<and> ''notifier'' \<in> dom (building
         (snd (the (call_accessors 4 example_builders
            (example_server\<lparr>building := (building example_server)(''notifier'' \<mapsto> 1)\<rparr>)
            [''keyring'']))))
   \<and> get_dependency (Suc 0) example_builders
         (snd (the (call_accessors 4 example_builders
            (example_server\<lparr>building := (building example_server)(''notifier'' \<mapsto> 1)\<rparr>)
            [''keyring''])))
         ''notifier''
       = Some (Inl (CyclicDependency ''notifier''),
               snd (the (call_accessors 4 example_builders
                 (example_server\<lparr>building := (building example_server)(''notifier'' \<mapsto> 1)\<rparr>)
                 [''keyring''])))
   \<and> get_dependency (Suc (Suc 0)) example_builders example_server ''pusherpool''
       = Some (Inl (CyclicDependency ''pusherpool''),
               example_server\<lparr>building := (building example_server)(''pusherpool'' \<mapsto> 1)\<rparr>)
   \<and> get_dependency (Suc 0) example_builders
         (example_server\<lparr>building := (building example_server)(''notifier'' \<mapsto> 1)\<rparr>)
         ''notifier''
       = Some (Inl (CyclicDependency ''notifier''),
               example_server\<lparr>building := (building example_server)(''notifier'' \<mapsto> 1)\<rparr>)
   \<and> map_option fst (get_dependency 5 example_builders example_server ''auth'') = Some (Inr 12)
   \<and> attrs (snd (the (get_dependency 5 example_builders example_server ''auth''))) ''auth''
       = Some 12
   \<and> building (snd (the (get_dependency 5 example_builders example_server ''auth'')))
       = building example_server
   \<and> get_dependency (Suc 0) Map.empty
         (snd (the (get_dependency 5 example_builders example_server ''auth''))) ''auth''
       = Some (Inr 12, snd (the (get_dependency 5 example_builders example_server ''auth'')))"
proof -
  let ?hsN = "example_server\<lparr>building := (building example_server)(''notifier'' \<mapsto> 1)\<rparr>"
  let ?hsP = "example_server\<lparr>building := (building example_server)(''pusherpool'' \<mapsto> 1)\<rparr>"
  let ?bN = "\<lparr>needs = [''keyring''], construct = sum_list\<rparr> :: nat builder"
  let ?bP = "\<lparr>needs = [''clock'', ''pusherpool''], construct = sum_list\<rparr> :: nat builder"
  let ?s1 = "snd (the (call_accessors 4 example_builders ?hsN [''keyring'']))"
  let ?hs2 = "snd (the (get_dependency 5 example_builders example_server ''auth''))"
  have dn: "''notifier'' \<in> set DEPENDENCIES" by (simp add: DEPENDENCIES_def)
  have da: "''auth'' \<in> set DEPENDENCIES" by (simp add: DEPENDENCIES_def)
  have dp: "''pusherpool'' \<in> set DEPENDENCIES" by (simp add: DEPENDENCIES_def)
  have dc: "''clock'' \<in> set DEPENDENCIES" by (simp add: DEPENDENCIES_def)
  have an: "attrs example_server ''notifier'' = None" by (simp add: example_server_def)
  have ap: "attrs example_server ''pusherpool'' = None" by (simp add: example_server_def)
  have bn: "example_builders ''notifier'' = Some ?bN" by (simp add: example_builders_def)
  have bp: "example_builders ''pusherpool'' = Some ?bP" by (simp add: example_builders_def)
  have mn: "''notifier'' \<notin> dom (building example_server)" by (simp add: example_server_def)
  have mp: "''pusherpool'' \<notin> dom (building example_server)" by (simp add: example_server_def)
  have v0: "map_option fst (call_accessors 4 example_builders ?hsN [''keyring''])
       = Some (Inl (CyclicDependency ''notifier''))"
    by code_simp
  then obtain s1 where run: "call_accessors 4 example_builders ?hsN [''keyring'']
       = Some (Inl (CyclicDependency ''notifier''), s1)"
    by (cases "call_accessors 4 example_builders ?hsN [''keyring'']") auto
  have s1: "?s1 = s1"
    by (simp only: run option.sel snd_conv)
  have nb: "needs ?bN = [''keyring'']" "take 1 (needs ?bN) = [''keyring'']"
    by simp_all
  note N = dependency_resolution [OF dn, where hs = example_server
      and builders = example_builders and b = ?bN and n = 4 and k = 1
      and r = "Inl (CyclicDependency ''notifier'')" and ?hs1.0 = s1 and m = 0]
  from N [THEN conjunct1] an bn mn
  have "get_dependency (Suc 4) example_builders example_server ''notifier'' =
      (case call_accessors 4 example_builders ?hsN (needs ?bN) of
         None \<Rightarrow> None
       | Some (Inl e, hs1) \<Rightarrow> Some (Inl e, hs1)
       | Some (Inr vs, hs1) \<Rightarrow>
           Some (Inr (construct ?bN vs),
                 hs1\<lparr>attrs := (attrs hs1)(''notifier'' \<mapsto> construct ?bN vs),
                      building := building example_server\<rparr>))"
    by blast
  then have c1': "get_dependency 5 example_builders example_server ''notifier''
       = Some (Inl (CyclicDependency ''notifier''), s1)"
    unfolding nb run by simp
  have runk: "call_accessors 4 example_builders ?hsN (take 1 (needs ?bN))
       = Some (Inl (CyclicDependency ''notifier''), s1)"
    using run by (simp del: call_accessors.simps get_dependency.simps)
  from N [THEN conjunct2, THEN conjunct1] an bn mn runk
  have c2': "''notifier'' \<in> dom (building s1)"
    and c3': "get_dependency (Suc 0) example_builders s1 ''notifier''
       = Some (Inl (CyclicDependency ''notifier''), s1)"
    by blast+
  have c1: "get_dependency 5 example_builders example_server ''notifier''
       = Some (Inl (CyclicDependency ''notifier''), ?s1)"
    unfolding s1 by (rule c1')
  have c2: "''notifier'' \<in> dom (building ?s1)"
    unfolding s1 by (rule c2')
  have c3: "get_dependency (Suc 0) example_builders ?s1 ''notifier''
       = Some (Inl (CyclicDependency ''notifier''), ?s1)"
    unfolding s1 by (rule c3')
  from dependency_resolution [OF dn, where hs = example_server and builders = example_builders
      and b = ?bN and n = 5 and e = "CyclicDependency ''notifier''" and ?hs3.0 = s1]
    an bn mn c1'
  have c4': "''notifier'' \<in> dom (building s1)"
    by blast
  have c4: "''notifier'' \<in> dom (building
      (snd (the (get_dependency 5 example_builders example_server ''notifier''))))"
    unfolding c1' option.sel snd_conv by (rule c4')
  have runp: "call_accessors (Suc 0) example_builders ?hsP (take 1 (needs ?bP))
      = Some (Inr [1], ?hsP)"
    using dc by (simp add: example_server_def)
  from dependency_resolution [OF dp, where hs = example_server and builders = example_builders
      and b = ?bP and n = 0 and k = 1 and vs = "[1]" and ?hs1.0 = ?hsP]
    ap bp mp runp
  have c5: "get_dependency (Suc (Suc 0)) example_builders example_server ''pusherpool''
       = Some (Inl (CyclicDependency ''pusherpool''), ?hsP)"
    by (simp del: call_accessors.simps get_dependency.simps)
  from dependency_resolution [OF dn, where hs = ?hsN and builders = example_builders
      and b = ?bN and n = 0] an bn
  have c6: "get_dependency (Suc 0) example_builders ?hsN ''notifier''
       = Some (Inl (CyclicDependency ''notifier''), ?hsN)"
    by (simp del: call_accessors.simps get_dependency.simps)
  have v2: "map_option fst (get_dependency 5 example_builders example_server ''auth'')
       = Some (Inr 12)"
    by code_simp
  then have g: "get_dependency 5 example_builders example_server ''auth'' = Some (Inr 12, ?hs2)"
    by (cases "get_dependency 5 example_builders example_server ''auth''") auto
  from dependency_resolution [OF da, where hs = example_server and builders = example_builders
      and n = 5 and v = 12 and ?hs2.0 = ?hs2 and m = 0 and builders' = Map.empty] g
  have c7: "attrs ?hs2 ''auth'' = Some 12"
    and c8: "building ?hs2 = building example_server"
    and c9: "get_dependency (Suc 0) Map.empty ?hs2 ''auth'' = Some (Inr 12, ?hs2)"
    by blast+
  from dn da dp an mn v0 c1 c4 c2 c3 c5 c6 v2 c7 c8 c9 show ?thesis by (intro conjI)
qed

subsection \<open>The order of the returned events\<close>

lemma set_membership_rows: "set (membership_rows tbl ms user from_id to_id) \<subseteq> set tbl"
  by (auto simp: membership_rows_def)

lemma membership_rows_sorted:
  "sorted (map stream_ordering (membership_rows tbl ms user from_id to_id))"
  unfolding membership_rows_def by (rule sorted_order_by_ASC)

lemma membership_changes_sorted:
  assumes ids: "distinct (map event_id (events st))"
  shows "sorted (map (stream_ordering \<circ> ev_row)
           (returned_list (get_membership_changes_for_user st user from_key to_key)))"
proof -
  let ?res = "get_membership_changes_for_user st user from_key to_key"
  have ld: "map ev_row (get_events (events st)
        (map event_id (membership_rows (events st) (room_memberships st) user from_id to_id)))
      = membership_rows (events st) (room_memberships st) user from_id to_id" for from_id to_id
    using ids set_membership_rows by (rule loaded_rows)
  have "returned_list ?res = [] \<or> (\<exists>from_id to_id. map ev_row (returned_list ?res)
      = membership_rows (events st) (room_memberships st) user from_id to_id)"
    by (auto simp: get_membership_changes_for_user_def returned_list_def Let_def ld
        split: sum.splits option.splits)
  then show ?thesis
    using membership_rows_sorted by (auto simp: map_map [symmetric] simp del: map_map)
qed

lemma query_before_sorted:
  "sorted (rev (map composite (query_before tbl room topo strm limit)))"
  unfolding query_before_def by (rule sorted_rev_sql_limit) (rule sorted_order_by_DESC)

lemma query_after_sorted: "sorted (map composite (query_after tbl room topo strm limit))"
  unfolding query_after_def by (rule sorted_sql_limit) (rule sorted_order_by_ASC)

lemma around_loaded:
  assumes ids: "distinct (map event_id (events st))"
    and res: "fst (get_events_around st room eid before_limit after_limit) = Inr w"
  shows "\<exists>topo strm.
           map ev_row (events_before w) = query_before (events st) room topo strm before_limit
         \<and> map ev_row (events_after w) = query_after (events st) room topo strm after_limit"
proof -
  have b: "map ev_row (get_events (events st)
        (map event_id (query_before (events st) room topo strm n)))
      = query_before (events st) room topo strm n" for topo strm n
    using ids set_query_before by (rule loaded_rows)
  have a: "map ev_row (get_events (events st)
        (map event_id (query_after (events st) room topo strm n)))
      = query_after (events st) room topo strm n" for topo strm n
    using ids set_query_after by (rule loaded_rows)
  from res obtain pin where "simple_select_one_txn (events st) eid room = Inr pin"
    by (auto simp: get_events_around_def get_events_around_txn_def split: sum.splits)
  with res have "map ev_row (events_before w)
        = query_before (events st) room (topological_ordering pin) (stream_ordering pin) before_limit
      \<and> map ev_row (events_after w)
        = query_after (events st) room (topological_ordering pin) (stream_ordering pin) after_limit"
    by (auto simp: get_events_around_def get_events_around_txn_def Let_def a b)
  then show ?thesis by blast
qed

lemma window_sorted:
  assumes ids: "distinct (map event_id (events st))"
  shows "sorted (map (composite \<circ> ev_row)
           (window_after (get_events_around st room eid before_limit after_limit)))"
    and "sorted (rev (map (composite \<circ> ev_row)
           (window_before (get_events_around st room eid before_limit after_limit))))"
proof -
  let ?res = "get_events_around st room eid before_limit after_limit"
  show "sorted (map (composite \<circ> ev_row) (window_after ?res))"
  proof (cases "fst ?res")
    case (Inl e)
    then show ?thesis by (simp add: window_after_def)
  next
    case (Inr w)
    from around_loaded [OF ids Inr] obtain topo strm where
      "map ev_row (events_after w) = query_after (events st) room topo strm after_limit"
      by blast
    then have "sorted (map composite (map ev_row (events_after w)))"
      by (simp only: query_after_sorted)
    with Inr show ?thesis by (simp add: window_after_def)
  qed
  show "sorted (rev (map (composite \<circ> ev_row) (window_before ?res)))"
  proof (cases "fst ?res")
    case (Inl e)
    then show ?thesis by (simp add: window_before_def)
  next
    case (Inr w)
    from around_loaded [OF ids Inr] obtain topo strm where
      "map ev_row (events_before w) = query_before (events st) room topo strm before_limit"
      by blast
    then have "sorted (rev (map composite (map ev_row (events_before w))))"
      by (simp only: query_before_sorted)
    with Inr show ?thesis by (simp add: window_before_def rev_map)
  qed
qed

lemma gather_results_all:
  "List.map_filter (\<lambda>r. case fst r of Inl e \<Rightarrow> Some e | Inr x \<Rightarrow> None) rs = []
     \<Longrightarrow> map fst rs
           = map Inr (List.map_filter (\<lambda>r. case fst r of Inl e \<Rightarrow> None | Inr x \<Rightarrow> Some x) rs)"
  by (induction rs) (auto simp: map_filter_simps split: sum.splits)

lemma gather_results_Inr:
  assumes "gather_results rs = (Inr res, tr)"
  shows "map fst rs = map Inr res"
  using assms gather_results_all [of rs]
  by (auto simp: gather_results_def split: list.splits)

lemma stream_for_rooms_loop_values:
  assumes "stream_for_rooms_loop st from_key to_key limit ord pieces results = (Inr m, tr)"
    and "m room = Some v"
  shows "results room = Some v
       \<or> (\<exists>room'. fst (get_room_events_stream_for_room st room' (Some from_key) to_key limit ord)
                     = Inr v)"
  using assms
proof (induction pieces arbitrary: results tr)
  case Nil
  then show ?case by simp
next
  case (Cons rm_ids rest)
  let ?call = "\<lambda>room. get_room_events_stream_for_room st room (Some from_key) to_key limit ord"
  from Cons.prems(1) obtain res tr1 where g: "gather_results (map ?call rm_ids) = (Inr res, tr1)"
    by (auto split: prod.splits sum.splits)
  with Cons.prems(1) obtain tr2 where
    l: "stream_for_rooms_loop st from_key to_key limit ord rest
          (results ++ map_of (zip rm_ids res)) = (Inr m, tr2)"
    by (auto split: prod.splits)
  from Cons.IH [OF l Cons.prems(2)]
  show ?case
  proof
    assume "(results ++ map_of (zip rm_ids res)) room = Some v"
    then have "results room = Some v \<or> map_of (zip rm_ids res) room = Some v"
      by (auto simp: map_add_Some_iff)
    then show ?thesis
    proof
      assume "map_of (zip rm_ids res) room = Some v"
      then have "(room, v) \<in> set (zip rm_ids res)" by (rule map_of_SomeD)
      then have "v \<in> set res" by (rule set_zip_rightD)
      then have "Inr v \<in> set (map Inr res)" by simp
      with gather_results_Inr [OF g] have "Inr v \<in> set (map fst (map ?call rm_ids))" by simp
      then show ?thesis by auto
    qed simp
  qed simp
qed

lemma stream_for_rooms_sorted:
  assumes ids: "distinct (map event_id (events st))"
  shows "sorted (map (stream_ordering \<circ> ev_row)
           (room_batch (get_room_events_stream_for_rooms st room_ids from_key to_key limit ord)
              room))"
proof -
  let ?res = "get_room_events_stream_for_rooms st room_ids from_key to_key limit ord"
  show ?thesis
  proof (cases "\<exists>m evs key. fst ?res = Inr m \<and> m room = Some (evs, key)")
    case False
    then have "room_batch ?res room = []"
      by (auto simp: room_batch_def split: sum.splits option.splits)
    then show ?thesis by simp
  next
    case True
    then obtain m evs key where m: "fst ?res = Inr m" "m room = Some (evs, key)" by blast
    then have rb: "room_batch ?res room = evs" by (simp add: room_batch_def)
    from m obtain pieces tr where
      "stream_for_rooms_loop st from_key to_key limit ord pieces Map.empty = (Inr m, tr)"
      by (auto simp: get_room_events_stream_for_rooms_def Let_def
          split: sum.splits if_splits prod.splits)
    from stream_for_rooms_loop_values [OF this m(2)]
    obtain room' where
      "fst (get_room_events_stream_for_room st room' (Some from_key) to_key limit ord)
         = Inr (evs, key)"
      by auto
    then have "returned_events
        (get_room_events_stream_for_room st room' (Some from_key) to_key limit ord) = Inr evs"
      by (simp add: returned_events_def)
    with returned_event_order_cases [OF ids, THEN conjunct2, THEN conjunct1]
    have "sorted (map (stream_ordering \<circ> ev_row) evs)" by blast
    with rb show ?thesis by simp
  qed
qed

lemma recent_ids_sorted:
  "sorted (map composite (batch (get_recent_event_ids_for_room st room limit end_key from_token)))"
proof -
  let ?res = "get_recent_event_ids_for_room st room limit end_key from_token"
  have "batch ?res = [] \<or> (\<exists>end_id from_id.
      batch ?res = recent_rows (events st) room limit end_id from_id)"
    by (auto simp: get_recent_event_ids_for_room_def batch_def Let_def
        split: sum.splits option.splits)
  then show ?thesis using recent_rows_sorted by auto
qed

text \<open>
  C2 (amended). With distinct event ids, every read operation returns its events sorted,
  whatever the direction of its query, and ascending except for the two reads that
  return the rows of a descending query as they are. Ascending in the composite order
  (topological ordering, stream ordering): \<^verbatim>\<open>get_room_events_stream_for_room\<close> without
  \<^verbatim>\<open>from_key\<close>, for \<^verbatim>\<open>ASC\<close> and for \<^verbatim>\<open>DESC\<close>; \<^verbatim>\<open>get_recent_events_for_room\<close> and
  the rows of \<^verbatim>\<open>get_recent_event_ids_for_room\<close>; \<^verbatim>\<open>events_after\<close> of
  \<^verbatim>\<open>get_events_around\<close>; \<^verbatim>\<open>paginate_room_events\<close> for a direction other than
  \<^verbatim>\<open>'b'\<close>. Ascending in stream ordering: \<^verbatim>\<open>get_room_events_stream_for_room\<close> with a
  \<^verbatim>\<open>from_key\<close>, for \<^verbatim>\<open>ASC\<close> and for \<^verbatim>\<open>DESC\<close>, and so the events of every room of
  \<^verbatim>\<open>get_room_events_stream_for_rooms\<close>; \<^verbatim>\<open>get_appservice_room_stream\<close>;
  \<^verbatim>\<open>get_membership_changes_for_user\<close>. Descending in the composite order:
  \<^verbatim>\<open>paginate_room_events\<close> for the direction \<^verbatim>\<open>'b'\<close> and \<^verbatim>\<open>events_before\<close> of
  \<^verbatim>\<open>get_events_around\<close>.
\<close>

theorem returned_event_order:
  assumes ids: "distinct (map event_id (events st))"
  shows "sorted (map (composite \<circ> ev_row)
            (batch (get_room_events_stream_for_room st room None to_key limit ord)))
       \<and> sorted (map (stream_ordering \<circ> ev_row)
            (batch (get_room_events_stream_for_room st room (Some from_key) to_key limit ord)))
       \<and> sorted (map (stream_ordering \<circ> ev_row)
            (room_batch (get_room_events_stream_for_rooms st room_ids from_key to_key limit ord)
               room))
       \<and> sorted (map (stream_ordering \<circ> ev_row)
            (batch (get_appservice_room_stream st service from_key to_key limit)))
       \<and> sorted (map (stream_ordering \<circ> ev_row)
            (returned_list (get_membership_changes_for_user st user from_token to_key)))
       \<and> sorted (map (composite \<circ> ev_row)
            (batch (get_recent_events_for_room st room limit to_key from_token)))
       \<and> sorted (map composite
            (batch (get_recent_event_ids_for_room st room limit to_key from_token)))
       \<and> sorted (map (composite \<circ> ev_row)
            (window_after (get_events_around st room eid before_limit after_limit)))
       \<and> sorted (rev (map (composite \<circ> ev_row)
            (window_before (get_events_around st room eid before_limit after_limit))))
       \<and> (direction \<noteq> ''b'' \<longrightarrow>
            sorted (map (composite \<circ> ev_row)
              (batch (paginate_room_events st room from_key to_token direction limit))))
       \<and> sorted (rev (map (composite \<circ> ev_row)
            (batch (paginate_room_events st room from_key to_token ''b'' limit))))"
proof (intro conjI impI)
  note c = returned_event_order_cases [OF ids]
  show "sorted (map (composite \<circ> ev_row)
            (batch (get_room_events_stream_for_room st room None to_key limit ord)))"
    using batch_cases [of "get_room_events_stream_for_room st room None to_key limit ord"]
      c [THEN conjunct1] by auto
  show "sorted (map (stream_ordering \<circ> ev_row)
            (batch (get_room_events_stream_for_room st room (Some from_key) to_key limit ord)))"
    using batch_cases [of "get_room_events_stream_for_room st room (Some from_key) to_key limit ord"]
      c [THEN conjunct2, THEN conjunct1] by auto
  show "sorted (map (stream_ordering \<circ> ev_row)
            (room_batch (get_room_events_stream_for_rooms st room_ids from_key to_key limit ord)
               room))"
    using ids by (rule stream_for_rooms_sorted)
  show "sorted (map (composite \<circ> ev_row)
            (batch (get_recent_events_for_room st room limit to_key from_token)))"
    using batch_cases [of "get_recent_events_for_room st room limit to_key from_token"]
      c [THEN conjunct2, THEN conjunct2, THEN conjunct1] by auto
  show "sorted (map composite
            (batch (get_recent_event_ids_for_room st room limit to_key from_token)))"
    by (rule recent_ids_sorted)
  show "sorted (map (stream_ordering \<circ> ev_row)
            (batch (get_appservice_room_stream st service from_key to_key limit)))"
    using batch_cases [of "get_appservice_room_stream st service from_key to_key limit"]
      c [THEN conjunct2, THEN conjunct2, THEN conjunct2, THEN conjunct1] by auto
  show "sorted (map (stream_ordering \<circ> ev_row)
            (returned_list (get_membership_changes_for_user st user from_token to_key)))"
    using ids by (rule membership_changes_sorted)
  show "sorted (map (composite \<circ> ev_row)
            (window_after (get_events_around st room eid before_limit after_limit)))"
    using ids by (rule window_sorted(1))
  show "sorted (rev (map (composite \<circ> ev_row)
            (window_before (get_events_around st room eid before_limit after_limit))))"
    using ids by (rule window_sorted(2))
  show "sorted (rev (map (composite \<circ> ev_row)
            (batch (paginate_room_events st room from_key to_token ''b'' limit))))"
    using batch_cases [of "paginate_room_events st room from_key to_token ''b'' limit"]
      c [THEN conjunct2, THEN conjunct2, THEN conjunct2, THEN conjunct2, THEN conjunct2] by auto
  assume "direction \<noteq> ''b''"
  then show "sorted (map (composite \<circ> ev_row)
              (batch (paginate_room_events st room from_key to_token direction limit)))"
    using batch_cases [of "paginate_room_events st room from_key to_token direction limit"]
      c [THEN conjunct2, THEN conjunct2, THEN conjunct2, THEN conjunct2, THEN conjunct1] by auto
qed

theorem returned_event_order_witness:
  "distinct (map event_id (events live_store))
   \<and> distinct (map event_id (events bridge_store))
   \<and> ''f'' \<noteq> ''b''
   \<and> map (composite \<circ> ev_row)
        (batch (get_room_events_stream_for_room live_store ''!R'' None ''s5'' 3 DESC))
       = [(3, 3), (4, 4), (5, 5)]
   \<and> sorted (map (composite \<circ> ev_row)
        (batch (get_room_events_stream_for_room live_store ''!R'' None ''s5'' 3 DESC)))
   \<and> sorted (map (stream_ordering \<circ> ev_row)
        (batch (get_room_events_stream_for_room live_store ''!R'' (Some ''s2'') ''s5'' 3 DESC)))
   \<and> map (stream_ordering \<circ> ev_row)
        (room_batch (get_room_events_stream_for_rooms live_store [''!R'', ''!X''] ''s2'' ''s5'' 3 DESC)
           ''!R'')
       = [3, 4, 5]
   \<and> sorted (map (stream_ordering \<circ> ev_row)
        (room_batch (get_room_events_stream_for_rooms live_store [''!R'', ''!X''] ''s2'' ''s5'' 3 DESC)
           ''!R''))
   \<and> sorted (map (stream_ordering \<circ> ev_row)
        (batch (get_appservice_room_stream live_store bridge_service ''s2'' ''s5'' 3)))
   \<and> map (stream_ordering \<circ> ev_row)
        (returned_list (get_membership_changes_for_user bridge_store ''@u:hs'' None ''s3''))
       = [2]
   \<and> sorted (map (stream_ordering \<circ> ev_row)
        (returned_list (get_membership_changes_for_user bridge_store ''@u:hs'' None ''s3'')))
   \<and> sorted (map (composite \<circ> ev_row)
        (batch (get_recent_events_for_room live_store ''!R'' 3 ''s5'' None)))
   \<and> sorted (map composite
        (batch (get_recent_event_ids_for_room live_store ''!R'' 3 ''s5'' None)))
   \<and> map (composite \<circ> ev_row) (window_after (get_events_around live_store ''!R'' ''$e3'' 2 2))
       = [(4, 4), (5, 5)]
   \<and> sorted (map (composite \<circ> ev_row)
        (window_after (get_events_around live_store ''!R'' ''$e3'' 2 2)))
   \<and> map (composite \<circ> ev_row) (window_before (get_events_around live_store ''!R'' ''$e3'' 2 2))
       = [(2, 2), (1, 1)]
   \<and> sorted (rev (map (composite \<circ> ev_row)
        (window_before (get_events_around live_store ''!R'' ''$e3'' 2 2))))
   \<and> sorted (map (composite \<circ> ev_row)
        (batch (paginate_room_events live_store ''!R'' ''s2'' None ''f'' 3)))
   \<and> map (composite \<circ> ev_row)
        (batch (paginate_room_events live_store ''!R'' ''t5-5'' None ''b'' 3))
       = [(5, 5), (4, 4), (3, 3)]
   \<and> sorted (rev (map (composite \<circ> ev_row)
        (batch (paginate_room_events live_store ''!R'' ''t5-5'' None ''b'' 3))))"
proof -
  have ids: "distinct (map event_id (events live_store))"
    by (simp add: live_store_def live_room_def message_row_def)
  have idb: "distinct (map event_id (events bridge_store))"
    by (simp add: bridge_store_def bridge_room_def message_row_def member_row_def)
  have d: "''f'' \<noteq> ''b''" by simp
  have v1: "map (composite \<circ> ev_row)
        (batch (get_room_events_stream_for_room live_store ''!R'' None ''s5'' 3 DESC))
       = [(3, 3), (4, 4), (5, 5)]"
    by code_simp
  have v2: "map (composite \<circ> ev_row)
        (batch (paginate_room_events live_store ''!R'' ''t5-5'' None ''b'' 3))
       = [(5, 5), (4, 4), (3, 3)]"
    by code_simp
  have v3: "map (stream_ordering \<circ> ev_row)
        (room_batch (get_room_events_stream_for_rooms live_store [''!R'', ''!X''] ''s2'' ''s5'' 3 DESC)
           ''!R'')
       = [3, 4, 5]"
    by code_simp
  have v4: "map (stream_ordering \<circ> ev_row)
        (returned_list (get_membership_changes_for_user bridge_store ''@u:hs'' None ''s3''))
       = [2]"
    by code_simp
  have v5: "map (composite \<circ> ev_row) (window_after (get_events_around live_store ''!R'' ''$e3'' 2 2))
       = [(4, 4), (5, 5)]"
    by code_simp
  have v6: "map (composite \<circ> ev_row) (window_before (get_events_around live_store ''!R'' ''$e3'' 2 2))
       = [(2, 2), (1, 1)]"
    by code_simp
  note L = returned_event_order [OF ids, where room = "''!R''" and to_key = "''s5''" and limit = 3
      and ord = DESC and from_key = "''s2''" and room_ids = "[''!R'', ''!X'']"
      and service = bridge_service and user = "''@u:hs''" and from_token = None
      and eid = "''$e3''" and before_limit = 2 and after_limit = 2 and direction = "''f''"
      and to_token = None]
  note P = returned_event_order [OF ids, where room = "''!R''" and to_key = "''s5''" and limit = 3
      and ord = DESC and from_key = "''t5-5''" and room_ids = "[''!R'', ''!X'']"
      and service = bridge_service and user = "''@u:hs''" and from_token = None
      and eid = "''$e3''" and before_limit = 2 and after_limit = 2 and direction = "''f''"
      and to_token = None]
  note B = returned_event_order [OF idb, where room = "''!R''" and to_key = "''s3''" and limit = 3
      and ord = DESC and from_key = "''s2''" and room_ids = "[''!R'', ''!X'']"
      and service = bridge_service and user = "''@u:hs''" and from_token = None
      and eid = "''$e3''" and before_limit = 2 and after_limit = 2 and direction = "''f''"
      and to_token = None]
  from L d
  have a1: "sorted (map (composite \<circ> ev_row)
        (batch (get_room_events_stream_for_room live_store ''!R'' None ''s5'' 3 DESC)))"
    and a2: "sorted (map (stream_ordering \<circ> ev_row)
        (batch (get_room_events_stream_for_room live_store ''!R'' (Some ''s2'') ''s5'' 3 DESC)))"
    and a3: "sorted (map (stream_ordering \<circ> ev_row)
        (room_batch (get_room_events_stream_for_rooms live_store [''!R'', ''!X''] ''s2'' ''s5'' 3 DESC)
           ''!R''))"
    and a4: "sorted (map (stream_ordering \<circ> ev_row)
        (batch (get_appservice_room_stream live_store bridge_service ''s2'' ''s5'' 3)))"
    and a6: "sorted (map (composite \<circ> ev_row)
        (batch (get_recent_events_for_room live_store ''!R'' 3 ''s5'' None)))"
    and a7: "sorted (map composite
        (batch (get_recent_event_ids_for_room live_store ''!R'' 3 ''s5'' None)))"
    and a8: "sorted (map (composite \<circ> ev_row)
        (window_after (get_events_around live_store ''!R'' ''$e3'' 2 2)))"
    and a9: "sorted (rev (map (composite \<circ> ev_row)
        (window_before (get_events_around live_store ''!R'' ''$e3'' 2 2))))"
    and a10: "sorted (map (composite \<circ> ev_row)
        (batch (paginate_room_events live_store ''!R'' ''s2'' None ''f'' 3)))"
    by blast+
  from B have a5: "sorted (map (stream_ordering \<circ> ev_row)
        (returned_list (get_membership_changes_for_user bridge_store ''@u:hs'' None ''s3'')))"
    by blast
  from P have a11: "sorted (rev (map (composite \<circ> ev_row)
        (batch (paginate_room_events live_store ''!R'' ''t5-5'' None ''b'' 3))))"
    by blast
  from ids idb d v1 a1 a2 v3 a3 a4 v4 a5 a6 a7 v5 a8 v6 a9 a10 v2 a11
  show ?thesis by (intro conjI)
qed

text \<open>
  C2 as stated fails in three ways: backward pagination returns the fifth event before
  the fourth; the events before a pinned event are returned nearest first; and a stream
  read with a \<^verbatim>\<open>from_key\<close> returns a room's events in stream order, which is not the
  composite order when an earlier received event lies deeper in the graph.
\<close>

theorem returned_event_order_counterexample:
  "map (composite \<circ> ev_row)
       (batch (paginate_room_events live_store ''!R'' ''t5-5'' None ''b'' 2))
     = [(5, 5), (4, 4)]
   \<and> \<not> sorted (map (composite \<circ> ev_row)
           (batch (paginate_room_events live_store ''!R'' ''t5-5'' None ''b'' 2)))
   \<and> map (composite \<circ> ev_row) (window_before (get_events_around live_store ''!R'' ''$e3'' 2 2))
     = [(2, 2), (1, 1)]
   \<and> \<not> sorted (map (composite \<circ> ev_row)
           (window_before (get_events_around live_store ''!R'' ''$e3'' 2 2)))
   \<and> map (composite \<circ> ev_row)
       (batch (get_room_events_stream_for_room backfill_store ''!R'' (Some ''s0'') ''s5'' 10 ASC))
     = [(3, 1), (1, 2)]
   \<and> \<not> sorted (map (composite \<circ> ev_row)
           (batch (get_room_events_stream_for_room backfill_store ''!R'' (Some ''s0'') ''s5'' 10
              ASC)))"
proof -
  have v: "map (composite \<circ> ev_row)
       (batch (paginate_room_events live_store ''!R'' ''t5-5'' None ''b'' 2))
     = [(5, 5), (4, 4)]"
    by code_simp
  have w: "map (composite \<circ> ev_row) (window_before (get_events_around live_store ''!R'' ''$e3'' 2 2))
     = [(2, 2), (1, 1)]"
    by code_simp
  have x: "map (composite \<circ> ev_row)
       (batch (get_room_events_stream_for_room backfill_store ''!R'' (Some ''s0'') ''s5'' 10 ASC))
     = [(3, 1), (1, 2)]"
    by code_simp
  have n1: "\<not> sorted [(5::int, 5::int), (4, 4)]" by (simp add: less_eq_prod_def)
  have n2: "\<not> sorted [(2::int, 2::int), (1, 1)]" by (simp add: less_eq_prod_def)
  have n3: "\<not> sorted [(3::int, 1::int), (1, 2)]" by (simp add: less_eq_prod_def)
  from v w x n1 n2 n3 show ?thesis by simp
qed

end
